theory Spec2Isabelle
  imports Main "HOL-Library.Word"
begin

unbundle bit_operations_syntax

section \<open>Data model of the packet payloads\<close>

text \<open>
  The three protobuf messages of \<^verbatim>\<open>packet.pb.go\<close>. A Go \<^verbatim>\<open>string\<close> is a
  \<open>string\<close>, a \<^verbatim>\<open>[]byte\<close> a list of 8-bit words, a \<^verbatim>\<open>uint64\<close> a 64-bit word.
  A Go slice that is \<^verbatim>\<open>nil\<close> and one that is empty are the same list \<open>[]\<close>, and
  the elements of \<open>Tokens\<close> are the tokens themselves (no \<^verbatim>\<open>nil\<close> pointer among them).
  The fields of the multi-token form and of \<open>Token\<close> that share a name with a field of
  the legacy form carry a suffix or prefix.
\<close>

type_synonym byte = "8 word"
type_synonym uint64 = "64 word"

text \<open>
  The errors of the generated code: its three error variables, \<^verbatim>\<open>io.ErrUnexpectedEOF\<close>,
  one constructor for each \<^verbatim>\<open>fmt.Errorf\<close> message, and the run-time panic of an index
  or slice expression that is out of range.
\<close>

datatype error =
    ErrInvalidLengthPacket
  | ErrIntOverflowPacket
  | ErrUnexpectedEndOfGroupPacket
  | ErrUnexpectedEOF
  | ErrEndGroupForNonGroup
  | ErrIllegalTag
  | ErrWrongWireType
  | ErrIllegalWireType
  | PanicOutOfRange

record FungibleTokenPacketData =
  Denom :: string
  Amount :: string
  Sender :: string
  Receiver :: string
  Memo :: string

record Token =
  TokenDenom :: string
  TokenAmount :: uint64
  Trace :: "string list"

record FungibleTokenPacketDataV2 =
  Tokens :: "Token list"
  SenderV2 :: string
  ReceiverV2 :: string
  MemoV2 :: string

text \<open>The conversions \<^verbatim>\<open>string(bs)\<close> and \<^verbatim>\<open>[]byte(s)\<close>.\<close>

definition string_of_bytes :: "byte list \<Rightarrow> string" where
  "string_of_bytes bs = map (\<lambda>b. char_of (unat b)) bs"

definition bytes_of_string :: "string \<Rightarrow> byte list" where
  "bytes_of_string s = map of_char s"

text \<open>
  Go's \<^verbatim>\<open>int\<close> has 64 bits. Indices are modelled as unbounded integers; the only
  places where the code looks at an overflow are its tests \<^verbatim>\<open>x < 0\<close> after an addition
  of two non-negative \<^verbatim>\<open>int\<close>s, and such a sum is negative in Go exactly when the
  exact sum is above \<open>maxInt\<close> (lemma \<open>negative_as_int_wraps\<close> below).
\<close>

definition maxInt :: int where
  "maxInt = 2 ^ 63 - 1"

definition negative_as_int :: "int \<Rightarrow> bool" where
  "negative_as_int x = (x < 0 \<or> maxInt < x)"

text \<open>
  The index expression \<^verbatim>\<open>dAtA[i]\<close> and the slice expression \<^verbatim>\<open>dAtA[lo:hi]\<close>: out
  of range they panic.
\<close>

definition index :: "byte list \<Rightarrow> int \<Rightarrow> error + byte" where
  "index dAtA i =
     (if 0 \<le> i \<and> i < int (length dAtA) then Inr (dAtA ! nat i) else Inl PanicOutOfRange)"

definition slice :: "byte list \<Rightarrow> int \<Rightarrow> int \<Rightarrow> error + byte list" where
  "slice dAtA lo hi =
     (if 0 \<le> lo \<and> lo \<le> hi \<and> hi \<le> int (length dAtA)
      then Inr (take (nat (hi - lo)) (drop (nat lo) dAtA))
      else Inl PanicOutOfRange)"

section \<open>Decoding\<close>

text \<open>
  The varint loop that the generated code repeats inline for every tag, length and integer
  field: \<^verbatim>\<open>for shift := uint(0); ; shift += 7 { ... }\<close>, started with \<open>shift = 0\<close> and
  accumulator \<open>0\<close>. It returns the value and the index after the last byte read.
\<close>

function decodeVarint :: "byte list \<Rightarrow> int \<Rightarrow> nat \<Rightarrow> uint64 \<Rightarrow> error + (uint64 \<times> int)" where
  "decodeVarint dAtA iNdEx shift acc =
     (if shift \<ge> 64 then Inl ErrIntOverflowPacket
      else if iNdEx \<ge> int (length dAtA) then Inl ErrUnexpectedEOF
      else case index dAtA iNdEx of
             Inl e \<Rightarrow> Inl e
           | Inr b \<Rightarrow>
               (let acc' = acc OR push_bit shift (ucast (b AND 0x7F))
                in if b < 0x80 then Inr (acc', iNdEx + 1)
                   else decodeVarint dAtA (iNdEx + 1) (shift + 7) acc'))"
  by pat_completeness auto
termination
  by (relation "measure (\<lambda>(dAtA, iNdEx, shift, acc). 64 - shift)") auto

declare decodeVarint.simps [simp del]

text \<open>
  A length-delimited string field after its tag: the length varint, the checks of
  \<^verbatim>\<open>intStringLen\<close> and \<^verbatim>\<open>postIndex\<close>, and the string \<^verbatim>\<open>dAtA[iNdEx:postIndex]\<close>.
\<close>

definition readString :: "byte list \<Rightarrow> int \<Rightarrow> error + (string \<times> int)" where
  "readString dAtA iNdEx =
     (case decodeVarint dAtA iNdEx 0 0 of
        Inl e \<Rightarrow> Inl e
      | Inr (stringLen, iNdEx') \<Rightarrow>
          (let intStringLen = sint stringLen in
           if intStringLen < 0 then Inl ErrInvalidLengthPacket
           else (let postIndex = iNdEx' + intStringLen in
             if negative_as_int postIndex then Inl ErrInvalidLengthPacket
             else if postIndex > int (length dAtA) then Inl ErrUnexpectedEOF
             else (case slice dAtA iNdEx' postIndex of
                     Inl e \<Rightarrow> Inl e
                   | Inr bs \<Rightarrow> Inr (string_of_bytes bs, postIndex)))))"

lemma decodeVarint_progress:
  "decodeVarint dAtA iNdEx shift acc = Inr (v, iNdEx') \<Longrightarrow>
     0 \<le> iNdEx \<and> iNdEx < iNdEx' \<and> iNdEx' \<le> int (length dAtA)"
proof (induction dAtA iNdEx shift acc rule: decodeVarint.induct)
  case (1 dAtA iNdEx shift acc)
  show ?case
  proof (cases "shift \<ge> 64 \<or> iNdEx \<ge> int (length dAtA) \<or> iNdEx < 0")
    case True
    with "1.prems" show ?thesis
      by (subst (asm) decodeVarint.simps) (auto simp: index_def split: if_splits)
  next
    case False
    then have b: "index dAtA iNdEx = Inr (dAtA ! nat iNdEx)"
      by (simp add: index_def)
    show ?thesis
    proof (cases "dAtA ! nat iNdEx < 0x80")
      case True
      with "1.prems" False b show ?thesis
        by (subst (asm) decodeVarint.simps) (simp add: Let_def)
    next
      case hi: False
      with "1.prems" False b have
        "decodeVarint dAtA (iNdEx + 1) (shift + 7)
           (acc OR push_bit shift (ucast (dAtA ! nat iNdEx AND 0x7F))) = Inr (v, iNdEx')"
        by (subst (asm) decodeVarint.simps) (simp add: Let_def)
      with "1.IH" [OF _ _ b refl hi] False show ?thesis
        by auto
    qed
  qed
qed

subsection \<open>skipPacket\<close>

text \<open>
  One iteration of the loop of \<^verbatim>\<open>skipPacket\<close>, up to the end of its \<^verbatim>\<open>switch\<close>; it
  returns the new index and the new group depth. The depth only grows by one per tag read, so
  it never leaves the range of an \<^verbatim>\<open>int\<close> and is a natural number here.
\<close>

definition skipPacket_step :: "byte list \<Rightarrow> int \<Rightarrow> nat \<Rightarrow> error + (int \<times> nat)" where
  "skipPacket_step dAtA iNdEx depth =
     (case decodeVarint dAtA iNdEx 0 0 of
        Inl e \<Rightarrow> Inl e
      | Inr (wire, iNdEx) \<Rightarrow>
          (let wireType = uint (wire AND 0x7) in
           if wireType = 0 then
             (case decodeVarint dAtA iNdEx 0 0 of
                Inl e \<Rightarrow> Inl e
              | Inr (_, iNdEx) \<Rightarrow> Inr (iNdEx, depth))
           else if wireType = 1 then Inr (iNdEx + 8, depth)
           else if wireType = 2 then
             (case decodeVarint dAtA iNdEx 0 0 of
                Inl e \<Rightarrow> Inl e
              | Inr (len, iNdEx) \<Rightarrow>
                  if sint len < 0 then Inl ErrInvalidLengthPacket
                  else Inr (iNdEx + sint len, depth))
           else if wireType = 3 then Inr (iNdEx, depth + 1)
           else if wireType = 4 then
             (if depth = 0 then Inl ErrUnexpectedEndOfGroupPacket
              else Inr (iNdEx, depth - 1))
           else if wireType = 5 then Inr (iNdEx + 4, depth)
           else Inl ErrIllegalWireType))"

lemma skipPacket_step_progress:
  "skipPacket_step dAtA iNdEx depth = Inr (iNdEx', depth') \<Longrightarrow> 0 \<le> iNdEx \<and> iNdEx < iNdEx'"
  by (auto simp: skipPacket_step_def Let_def split: sum.splits prod.splits if_splits
      dest!: decodeVarint_progress)

function skipPacket_loop :: "byte list \<Rightarrow> int \<Rightarrow> nat \<Rightarrow> error + int" where
  "skipPacket_loop dAtA iNdEx depth =
     (if iNdEx < int (length dAtA) then
        (case skipPacket_step dAtA iNdEx depth of
           Inl e \<Rightarrow> Inl e
         | Inr (iNdEx', depth') \<Rightarrow>
             if negative_as_int iNdEx' then Inl ErrInvalidLengthPacket
             else if depth' = 0 then Inr iNdEx'
             else skipPacket_loop dAtA iNdEx' depth')
      else Inl ErrUnexpectedEOF)"
  by pat_completeness auto
termination
proof (relation "measure (\<lambda>(dAtA, iNdEx, depth). nat (int (length dAtA) - iNdEx))")
  show "wf (measure (\<lambda>(dAtA, iNdEx, depth). nat (int (length dAtA) - iNdEx)))"
    by simp
next
  fix dAtA :: "byte list" and iNdEx :: int and depth :: nat and x2 x1 x2a
  assume "iNdEx < int (length dAtA)" "skipPacket_step dAtA iNdEx depth = Inr x2" "(x1, x2a) = x2"
  then have "iNdEx < x1"
    using skipPacket_step_progress [of dAtA iNdEx depth x1 x2a] by simp
  with \<open>iNdEx < int (length dAtA)\<close>
  show "((dAtA, x1, x2a), dAtA, iNdEx, depth) \<in> measure (\<lambda>(dAtA, iNdEx, depth). nat (int (length dAtA) - iNdEx))"
    by simp
qed

declare skipPacket_loop.simps [simp del]

definition skipPacket :: "byte list \<Rightarrow> error + int" where
  "skipPacket dAtA = skipPacket_loop dAtA 0 0"

lemma skipPacket_loop_positive:
  "skipPacket_loop dAtA iNdEx depth = Inr n \<Longrightarrow> iNdEx < n"
proof (induction dAtA iNdEx depth rule: skipPacket_loop.induct)
  case (1 dAtA iNdEx depth)
  from "1.prems" have lt: "iNdEx < int (length dAtA)"
    by (subst (asm) skipPacket_loop.simps) (simp split: if_splits)
  with "1.prems" obtain i' d' where step: "skipPacket_step dAtA iNdEx depth = Inr (i', d')"
    by (subst (asm) skipPacket_loop.simps) (auto split: sum.splits)
  then have prog: "iNdEx < i'"
    by (simp add: skipPacket_step_progress)
  show ?case
  proof (cases "d' = 0")
    case True
    with "1.prems" lt step prog show ?thesis
      by (subst (asm) skipPacket_loop.simps) (simp split: if_splits)
  next
    case False
    with "1.prems" lt step have ok: "\<not> negative_as_int i'"
      and rec: "skipPacket_loop dAtA i' d' = Inr n"
      by (subst (asm) skipPacket_loop.simps, simp split: if_splits)+
    from "1.IH" [OF lt step refl ok False rec] prog show ?thesis
      by simp
  qed
qed

subsection \<open>Unmarshal\<close>

text \<open>The default branch of the field switch: an unknown field is skipped.\<close>

definition skipUnknown :: "byte list \<Rightarrow> int \<Rightarrow> error + int" where
  "skipUnknown dAtA preIndex =
     (let iNdEx = preIndex in
      case slice dAtA iNdEx (int (length dAtA)) of
        Inl e \<Rightarrow> Inl e
      | Inr rest \<Rightarrow>
          (case skipPacket rest of
             Inl e \<Rightarrow> Inl e
           | Inr skippy \<Rightarrow>
               if skippy < 0 \<or> negative_as_int (iNdEx + skippy) then Inl ErrInvalidLengthPacket
               else if iNdEx + skippy > int (length dAtA) then Inl ErrUnexpectedEOF
               else Inr (iNdEx + skippy)))"

text \<open>\<^verbatim>\<open>fieldNum := int32(wire >> 3)\<close> and \<^verbatim>\<open>wireType := int(wire & 0x7)\<close>.\<close>

definition fieldNum_of :: "uint64 \<Rightarrow> int" where
  "fieldNum_of wire = sint (ucast (drop_bit 3 wire) :: 32 word)"

definition wireType_of :: "uint64 \<Rightarrow> int" where
  "wireType_of wire = uint (wire AND 0x7)"

text \<open>
  The body of the loop of \<^verbatim>\<open>(*FungibleTokenPacketData).Unmarshal\<close>: one field is read at
  \<open>iNdEx\<close>; the result is the index after it and the updated message.
\<close>

definition FungibleTokenPacketData_Unmarshal_step ::
  "byte list \<Rightarrow> int \<Rightarrow> FungibleTokenPacketData \<Rightarrow> error + (int \<times> FungibleTokenPacketData)" where
  "FungibleTokenPacketData_Unmarshal_step dAtA iNdEx m =
     (let preIndex = iNdEx in
      case decodeVarint dAtA iNdEx 0 0 of
        Inl e \<Rightarrow> Inl e
      | Inr (wire, iNdEx) \<Rightarrow>
          (let fieldNum = fieldNum_of wire; wireType = wireType_of wire in
           if wireType = 4 then Inl ErrEndGroupForNonGroup
           else if fieldNum \<le> 0 then Inl ErrIllegalTag
           else if fieldNum = 1 then
             (if wireType \<noteq> 2 then Inl ErrWrongWireType
              else case readString dAtA iNdEx of
                     Inl e \<Rightarrow> Inl e
                   | Inr (s, postIndex) \<Rightarrow> Inr (postIndex, m\<lparr>Denom := s\<rparr>))
           else if fieldNum = 2 then
             (if wireType \<noteq> 2 then Inl ErrWrongWireType
              else case readString dAtA iNdEx of
                     Inl e \<Rightarrow> Inl e
                   | Inr (s, postIndex) \<Rightarrow> Inr (postIndex, m\<lparr>Amount := s\<rparr>))
           else if fieldNum = 3 then
             (if wireType \<noteq> 2 then Inl ErrWrongWireType
              else case readString dAtA iNdEx of
                     Inl e \<Rightarrow> Inl e
                   | Inr (s, postIndex) \<Rightarrow> Inr (postIndex, m\<lparr>Sender := s\<rparr>))
           else if fieldNum = 4 then
             (if wireType \<noteq> 2 then Inl ErrWrongWireType
              else case readString dAtA iNdEx of
                     Inl e \<Rightarrow> Inl e
                   | Inr (s, postIndex) \<Rightarrow> Inr (postIndex, m\<lparr>Receiver := s\<rparr>))
           else if fieldNum = 5 then
             (if wireType \<noteq> 2 then Inl ErrWrongWireType
              else case readString dAtA iNdEx of
                     Inl e \<Rightarrow> Inl e
                   | Inr (s, postIndex) \<Rightarrow> Inr (postIndex, m\<lparr>Memo := s\<rparr>))
           else
             (case skipUnknown dAtA preIndex of
                Inl e \<Rightarrow> Inl e
              | Inr iNdEx \<Rightarrow> Inr (iNdEx, m))))"

lemma readString_progress:
  "readString dAtA iNdEx = Inr (s, postIndex) \<Longrightarrow>
     0 \<le> iNdEx \<and> iNdEx < postIndex \<and> postIndex \<le> int (length dAtA)"
  by (auto simp: readString_def Let_def split: sum.splits prod.splits if_splits
      dest!: decodeVarint_progress)

lemma skipUnknown_progress:
  "skipUnknown dAtA iNdEx = Inr iNdEx' \<Longrightarrow>
     0 \<le> iNdEx \<and> iNdEx < iNdEx' \<and> iNdEx' \<le> int (length dAtA)"
  by (auto simp: skipUnknown_def skipPacket_def slice_def Let_def
      split: sum.splits prod.splits if_splits dest!: skipPacket_loop_positive)

lemma FungibleTokenPacketData_Unmarshal_step_progress:
  "FungibleTokenPacketData_Unmarshal_step dAtA iNdEx m = Inr (iNdEx', m') \<Longrightarrow>
     0 \<le> iNdEx \<and> iNdEx < iNdEx' \<and> iNdEx' \<le> int (length dAtA)"
  unfolding FungibleTokenPacketData_Unmarshal_step_def Let_def
  by (auto split: sum.splits prod.splits if_splits
      dest!: decodeVarint_progress readString_progress skipUnknown_progress)

function FungibleTokenPacketData_Unmarshal_loop ::
  "byte list \<Rightarrow> int \<Rightarrow> FungibleTokenPacketData \<Rightarrow> error + FungibleTokenPacketData" where
  "FungibleTokenPacketData_Unmarshal_loop dAtA iNdEx m =
     (if iNdEx < int (length dAtA) then
        (case FungibleTokenPacketData_Unmarshal_step dAtA iNdEx m of
           Inl e \<Rightarrow> Inl e
         | Inr (iNdEx', m') \<Rightarrow> FungibleTokenPacketData_Unmarshal_loop dAtA iNdEx' m')
      else if iNdEx > int (length dAtA) then Inl ErrUnexpectedEOF
      else Inr m)"
  by pat_completeness auto
termination
proof (relation "measure (\<lambda>(dAtA, iNdEx, m). nat (int (length dAtA) - iNdEx))")
  show "wf (measure (\<lambda>(dAtA, iNdEx, m). nat (int (length dAtA) - iNdEx)))"
    by simp
next
  fix dAtA :: "byte list" and iNdEx :: int and m :: FungibleTokenPacketData and x2 x1 x2a
  assume "iNdEx < int (length dAtA)"
    "FungibleTokenPacketData_Unmarshal_step dAtA iNdEx m = Inr x2" "(x1, x2a) = x2"
  then have "iNdEx < x1"
    using FungibleTokenPacketData_Unmarshal_step_progress [of dAtA iNdEx m x1 x2a] by simp
  with \<open>iNdEx < int (length dAtA)\<close>
  show "((dAtA, x1, x2a), dAtA, iNdEx, m)
      \<in> measure (\<lambda>(dAtA, iNdEx, m). nat (int (length dAtA) - iNdEx))"
    by simp
qed

declare FungibleTokenPacketData_Unmarshal_loop.simps [simp del]

text \<open>
  \<^verbatim>\<open>Unmarshal\<close> does not reset its receiver: the fields read are merged into \<open>m\<close>.
  Decoding proper is \<^verbatim>\<open>Unmarshal\<close> on the zero value.
\<close>

definition FungibleTokenPacketData_Unmarshal ::
  "FungibleTokenPacketData \<Rightarrow> byte list \<Rightarrow> error + FungibleTokenPacketData" where
  "FungibleTokenPacketData_Unmarshal m dAtA = FungibleTokenPacketData_Unmarshal_loop dAtA 0 m"

definition FungibleTokenPacketData_zero :: FungibleTokenPacketData where
  "FungibleTokenPacketData_zero =
     \<lparr>Denom = [], Amount = [], Sender = [], Receiver = [], Memo = []\<rparr>"

definition Token_Unmarshal_step ::
  "byte list \<Rightarrow> int \<Rightarrow> Token \<Rightarrow> error + (int \<times> Token)" where
  "Token_Unmarshal_step dAtA iNdEx m =
     (let preIndex = iNdEx in
      case decodeVarint dAtA iNdEx 0 0 of
        Inl e \<Rightarrow> Inl e
      | Inr (wire, iNdEx) \<Rightarrow>
          (let fieldNum = fieldNum_of wire; wireType = wireType_of wire in
           if wireType = 4 then Inl ErrEndGroupForNonGroup
           else if fieldNum \<le> 0 then Inl ErrIllegalTag
           else if fieldNum = 1 then
             (if wireType \<noteq> 2 then Inl ErrWrongWireType
              else case readString dAtA iNdEx of
                     Inl e \<Rightarrow> Inl e
                   | Inr (s, postIndex) \<Rightarrow> Inr (postIndex, m\<lparr>TokenDenom := s\<rparr>))
           else if fieldNum = 2 then
             (if wireType \<noteq> 0 then Inl ErrWrongWireType
              else case decodeVarint dAtA iNdEx 0 0 of
                     Inl e \<Rightarrow> Inl e
                   | Inr (amount, iNdEx) \<Rightarrow> Inr (iNdEx, m\<lparr>TokenAmount := amount\<rparr>))
           else if fieldNum = 3 then
             (if wireType \<noteq> 2 then Inl ErrWrongWireType
              else case readString dAtA iNdEx of
                     Inl e \<Rightarrow> Inl e
                   | Inr (s, postIndex) \<Rightarrow> Inr (postIndex, m\<lparr>Trace := Trace m @ [s]\<rparr>))
           else
             (case skipUnknown dAtA preIndex of
                Inl e \<Rightarrow> Inl e
              | Inr iNdEx \<Rightarrow> Inr (iNdEx, m))))"

lemma Token_Unmarshal_step_progress:
  "Token_Unmarshal_step dAtA iNdEx m = Inr (iNdEx', m') \<Longrightarrow>
     0 \<le> iNdEx \<and> iNdEx < iNdEx' \<and> iNdEx' \<le> int (length dAtA)"
  unfolding Token_Unmarshal_step_def Let_def
  by (auto split: sum.splits prod.splits if_splits
      dest!: decodeVarint_progress readString_progress skipUnknown_progress)

function Token_Unmarshal_loop :: "byte list \<Rightarrow> int \<Rightarrow> Token \<Rightarrow> error + Token" where
  "Token_Unmarshal_loop dAtA iNdEx m =
     (if iNdEx < int (length dAtA) then
        (case Token_Unmarshal_step dAtA iNdEx m of
           Inl e \<Rightarrow> Inl e
         | Inr (iNdEx', m') \<Rightarrow> Token_Unmarshal_loop dAtA iNdEx' m')
      else if iNdEx > int (length dAtA) then Inl ErrUnexpectedEOF
      else Inr m)"
  by pat_completeness auto
termination
proof (relation "measure (\<lambda>(dAtA, iNdEx, m). nat (int (length dAtA) - iNdEx))")
  show "wf (measure (\<lambda>(dAtA, iNdEx, m). nat (int (length dAtA) - iNdEx)))"
    by simp
next
  fix dAtA :: "byte list" and iNdEx :: int and m :: Token and x2 x1 x2a
  assume "iNdEx < int (length dAtA)"
    "Token_Unmarshal_step dAtA iNdEx m = Inr x2" "(x1, x2a) = x2"
  then have "iNdEx < x1"
    using Token_Unmarshal_step_progress [of dAtA iNdEx m x1 x2a] by simp
  with \<open>iNdEx < int (length dAtA)\<close>
  show "((dAtA, x1, x2a), dAtA, iNdEx, m)
      \<in> measure (\<lambda>(dAtA, iNdEx, m). nat (int (length dAtA) - iNdEx))"
    by simp
qed

declare Token_Unmarshal_loop.simps [simp del]

definition Token_Unmarshal :: "Token \<Rightarrow> byte list \<Rightarrow> error + Token" where
  "Token_Unmarshal m dAtA = Token_Unmarshal_loop dAtA 0 m"

definition Token_zero :: Token where
  "Token_zero = \<lparr>TokenDenom = [], TokenAmount = 0, Trace = []\<rparr>"

text \<open>Field 1 of the multi-token form: an embedded Token message.\<close>

definition readToken :: "byte list \<Rightarrow> int \<Rightarrow> error + (Token \<times> int)" where
  "readToken dAtA iNdEx =
     (case decodeVarint dAtA iNdEx 0 0 of
        Inl e \<Rightarrow> Inl e
      | Inr (msglen, iNdEx') \<Rightarrow>
          (if sint msglen < 0 then Inl ErrInvalidLengthPacket
           else (let postIndex = iNdEx' + sint msglen in
             if negative_as_int postIndex then Inl ErrInvalidLengthPacket
             else if postIndex > int (length dAtA) then Inl ErrUnexpectedEOF
             else (case slice dAtA iNdEx' postIndex of
                     Inl e \<Rightarrow> Inl e
                   | Inr bs \<Rightarrow>
                       (case Token_Unmarshal Token_zero bs of
                          Inl e \<Rightarrow> Inl e
                        | Inr t \<Rightarrow> Inr (t, postIndex))))))"

definition FungibleTokenPacketDataV2_Unmarshal_step ::
  "byte list \<Rightarrow> int \<Rightarrow> FungibleTokenPacketDataV2
     \<Rightarrow> error + (int \<times> FungibleTokenPacketDataV2)" where
  "FungibleTokenPacketDataV2_Unmarshal_step dAtA iNdEx m =
     (let preIndex = iNdEx in
      case decodeVarint dAtA iNdEx 0 0 of
        Inl e \<Rightarrow> Inl e
      | Inr (wire, iNdEx) \<Rightarrow>
          (let fieldNum = fieldNum_of wire; wireType = wireType_of wire in
           if wireType = 4 then Inl ErrEndGroupForNonGroup
           else if fieldNum \<le> 0 then Inl ErrIllegalTag
           else if fieldNum = 1 then
             (if wireType \<noteq> 2 then Inl ErrWrongWireType
              else case readToken dAtA iNdEx of
                     Inl e \<Rightarrow> Inl e
                   | Inr (t, postIndex) \<Rightarrow> Inr (postIndex, m\<lparr>Tokens := Tokens m @ [t]\<rparr>))
           else if fieldNum = 2 then
             (if wireType \<noteq> 2 then Inl ErrWrongWireType
              else case readString dAtA iNdEx of
                     Inl e \<Rightarrow> Inl e
                   | Inr (s, postIndex) \<Rightarrow> Inr (postIndex, m\<lparr>SenderV2 := s\<rparr>))
           else if fieldNum = 3 then
             (if wireType \<noteq> 2 then Inl ErrWrongWireType
              else case readString dAtA iNdEx of
                     Inl e \<Rightarrow> Inl e
                   | Inr (s, postIndex) \<Rightarrow> Inr (postIndex, m\<lparr>ReceiverV2 := s\<rparr>))
           else if fieldNum = 4 then
             (if wireType \<noteq> 2 then Inl ErrWrongWireType
              else case readString dAtA iNdEx of
                     Inl e \<Rightarrow> Inl e
                   | Inr (s, postIndex) \<Rightarrow> Inr (postIndex, m\<lparr>MemoV2 := s\<rparr>))
           else
             (case skipUnknown dAtA preIndex of
                Inl e \<Rightarrow> Inl e
              | Inr iNdEx \<Rightarrow> Inr (iNdEx, m))))"

lemma readToken_progress:
  "readToken dAtA iNdEx = Inr (t, postIndex) \<Longrightarrow>
     0 \<le> iNdEx \<and> iNdEx < postIndex \<and> postIndex \<le> int (length dAtA)"
  by (auto simp: readToken_def Let_def split: sum.splits prod.splits if_splits
      dest!: decodeVarint_progress)

lemma FungibleTokenPacketDataV2_Unmarshal_step_progress:
  "FungibleTokenPacketDataV2_Unmarshal_step dAtA iNdEx m = Inr (iNdEx', m') \<Longrightarrow>
     0 \<le> iNdEx \<and> iNdEx < iNdEx' \<and> iNdEx' \<le> int (length dAtA)"
  unfolding FungibleTokenPacketDataV2_Unmarshal_step_def Let_def
  by (auto split: sum.splits prod.splits if_splits
      dest!: decodeVarint_progress readString_progress skipUnknown_progress readToken_progress)

function FungibleTokenPacketDataV2_Unmarshal_loop ::
  "byte list \<Rightarrow> int \<Rightarrow> FungibleTokenPacketDataV2 \<Rightarrow> error + FungibleTokenPacketDataV2" where
  "FungibleTokenPacketDataV2_Unmarshal_loop dAtA iNdEx m =
     (if iNdEx < int (length dAtA) then
        (case FungibleTokenPacketDataV2_Unmarshal_step dAtA iNdEx m of
           Inl e \<Rightarrow> Inl e
         | Inr (iNdEx', m') \<Rightarrow> FungibleTokenPacketDataV2_Unmarshal_loop dAtA iNdEx' m')
      else if iNdEx > int (length dAtA) then Inl ErrUnexpectedEOF
      else Inr m)"
  by pat_completeness auto
termination
proof (relation "measure (\<lambda>(dAtA, iNdEx, m). nat (int (length dAtA) - iNdEx))")
  show "wf (measure (\<lambda>(dAtA, iNdEx, m). nat (int (length dAtA) - iNdEx)))"
    by simp
next
  fix dAtA :: "byte list" and iNdEx :: int and m :: FungibleTokenPacketDataV2 and x2 x1 x2a
  assume "iNdEx < int (length dAtA)"
    "FungibleTokenPacketDataV2_Unmarshal_step dAtA iNdEx m = Inr x2" "(x1, x2a) = x2"
  then have "iNdEx < x1"
    using FungibleTokenPacketDataV2_Unmarshal_step_progress [of dAtA iNdEx m x1 x2a] by simp
  with \<open>iNdEx < int (length dAtA)\<close>
  show "((dAtA, x1, x2a), dAtA, iNdEx, m)
      \<in> measure (\<lambda>(dAtA, iNdEx, m). nat (int (length dAtA) - iNdEx))"
    by simp
qed

declare FungibleTokenPacketDataV2_Unmarshal_loop.simps [simp del]

definition FungibleTokenPacketDataV2_Unmarshal ::
  "FungibleTokenPacketDataV2 \<Rightarrow> byte list \<Rightarrow> error + FungibleTokenPacketDataV2" where
  "FungibleTokenPacketDataV2_Unmarshal m dAtA = FungibleTokenPacketDataV2_Unmarshal_loop dAtA 0 m"

definition FungibleTokenPacketDataV2_zero :: FungibleTokenPacketDataV2 where
  "FungibleTokenPacketDataV2_zero = \<lparr>Tokens = [], SenderV2 = [], ReceiverV2 = [], MemoV2 = []\<rparr>"

section \<open>Encoding\<close>

text \<open>
  \<^verbatim>\<open>bits.Len64\<close> of the Go library: the number of bits needed to represent its
  argument, \<open>0\<close> for \<open>0\<close>.
\<close>

fun bit_length :: "nat \<Rightarrow> nat" where
  "bit_length n = (if n = 0 then 0 else Suc (bit_length (n div 2)))"

declare bit_length.simps [simp del]

definition Len64 :: "uint64 \<Rightarrow> nat" where
  "Len64 x = bit_length (unat x)"

definition sovPacket :: "uint64 \<Rightarrow> int" where
  "sovPacket x = (int (Len64 (x OR 1)) + 6) div 7"

text \<open>
  The assignment \<^verbatim>\<open>dAtA[i] = b\<close> and the call \<^verbatim>\<open>copy(dAtA[i:], s)\<close>, which copies as many
  bytes as fit; the slice expression panics out of range.
\<close>

definition store :: "byte list \<Rightarrow> int \<Rightarrow> byte \<Rightarrow> error + byte list" where
  "store dAtA i b =
     (if 0 \<le> i \<and> i < int (length dAtA) then Inr (dAtA[nat i := b]) else Inl PanicOutOfRange)"

definition copy_at :: "byte list \<Rightarrow> int \<Rightarrow> string \<Rightarrow> error + byte list" where
  "copy_at dAtA i s =
     (if 0 \<le> i \<and> i \<le> int (length dAtA)
      then (let n = min (length dAtA - nat i) (length s)
            in Inr (take (nat i) dAtA @ bytes_of_string (take n s) @ drop (nat i + n) dAtA))
      else Inl PanicOutOfRange)"

function encodeVarint_loop :: "byte list \<Rightarrow> int \<Rightarrow> uint64 \<Rightarrow> error + byte list" where
  "encodeVarint_loop dAtA offset v =
     (if v \<ge> 0x80 then
        (case store dAtA offset (ucast ((v AND 0x7f) OR 0x80)) of
           Inl e \<Rightarrow> Inl e
         | Inr dAtA' \<Rightarrow> encodeVarint_loop dAtA' (offset + 1) (drop_bit 7 v))
      else store dAtA offset (ucast v))"
  by pat_completeness auto
termination
proof (relation "measure (\<lambda>(dAtA, offset, v). unat v)")
  show "wf (measure (\<lambda>(dAtA, offset, v). unat v))"
    by simp
next
  fix dAtA :: "byte list" and offset :: int and v :: uint64 and x2 :: "byte list"
  assume "0x80 \<le> v"
  then have "0 < unat v"
    by (simp add: word_le_nat_alt)
  then have "unat v div 2 ^ 7 < unat v"
    by simp
  then show "((x2, offset + 1, drop_bit 7 v), dAtA, offset, v) \<in> measure (\<lambda>(dAtA, offset, v). unat v)"
    by (simp add: drop_bit_eq_div unat_div)
qed

declare encodeVarint_loop.simps [simp del]

definition encodeVarintPacket :: "byte list \<Rightarrow> int \<Rightarrow> uint64 \<Rightarrow> error + (byte list \<times> int)" where
  "encodeVarintPacket dAtA offset v =
     (let offset = offset - sovPacket v; base = offset in
      case encodeVarint_loop dAtA offset v of
        Inl e \<Rightarrow> Inl e
      | Inr dAtA' \<Rightarrow> Inr (dAtA', base))"

text \<open>
  \<^verbatim>\<open>MarshalToSizedBuffer\<close> fills the buffer from its end: the state is the buffer and
  the index \<open>i\<close> of the first byte written so far. A length-delimited string field:
\<close>

definition put_string :: "byte \<Rightarrow> string \<Rightarrow> byte list \<times> int \<Rightarrow> error + (byte list \<times> int)" where
  "put_string tag s st =
     (case st of (dAtA, i) \<Rightarrow>
        (let i = i - int (length s) in
         case copy_at dAtA i s of
           Inl e \<Rightarrow> Inl e
         | Inr dAtA \<Rightarrow>
             (case encodeVarintPacket dAtA i (of_nat (length s)) of
                Inl e \<Rightarrow> Inl e
              | Inr (dAtA, i) \<Rightarrow>
                  (let i = i - 1 in
                   case store dAtA i tag of
                     Inl e \<Rightarrow> Inl e
                   | Inr dAtA \<Rightarrow> Inr (dAtA, i)))))"

definition put_string_nonempty ::
  "byte \<Rightarrow> string \<Rightarrow> byte list \<times> int \<Rightarrow> error + (byte list \<times> int)" where
  "put_string_nonempty tag s st = (if length s > 0 then put_string tag s st else Inr st)"

definition FungibleTokenPacketData_MarshalToSizedBuffer ::
  "FungibleTokenPacketData \<Rightarrow> byte list \<Rightarrow> error + (byte list \<times> int)" where
  "FungibleTokenPacketData_MarshalToSizedBuffer m dAtA =
     (case put_string_nonempty 0x2a (Memo m) (dAtA, int (length dAtA)) of
        Inl e \<Rightarrow> Inl e
      | Inr st \<Rightarrow>
     (case put_string_nonempty 0x22 (Receiver m) st of
        Inl e \<Rightarrow> Inl e
      | Inr st \<Rightarrow>
     (case put_string_nonempty 0x1a (Sender m) st of
        Inl e \<Rightarrow> Inl e
      | Inr st \<Rightarrow>
     (case put_string_nonempty 0x12 (Amount m) st of
        Inl e \<Rightarrow> Inl e
      | Inr st \<Rightarrow>
     (case put_string_nonempty 0xa (Denom m) st of
        Inl e \<Rightarrow> Inl e
      | Inr (dAtA', i) \<Rightarrow> Inr (dAtA', int (length dAtA) - i))))))"

text \<open>
  \<^verbatim>\<open>Size\<close>: the contribution \<^verbatim>\<open>1 + l + sovPacket(uint64(l))\<close> of a string field, and
  the sum over the fields that are not empty. The sum is an exact integer here; it is Go's
  \<^verbatim>\<open>int\<close> as long as it is at most \<open>maxInt\<close>, which the theorems about \<open>Marshal\<close> assume.
\<close>

definition string_field_size :: "string \<Rightarrow> int" where
  "string_field_size s = 1 + int (length s) + sovPacket (of_nat (length s))"

definition FungibleTokenPacketData_Size :: "FungibleTokenPacketData \<Rightarrow> int" where
  "FungibleTokenPacketData_Size m =
     (if length (Denom m) > 0 then string_field_size (Denom m) else 0)
   + (if length (Amount m) > 0 then string_field_size (Amount m) else 0)
   + (if length (Sender m) > 0 then string_field_size (Sender m) else 0)
   + (if length (Receiver m) > 0 then string_field_size (Receiver m) else 0)
   + (if length (Memo m) > 0 then string_field_size (Memo m) else 0)"

definition FungibleTokenPacketData_Marshal ::
  "FungibleTokenPacketData \<Rightarrow> error + byte list" where
  "FungibleTokenPacketData_Marshal m =
     (let size = FungibleTokenPacketData_Size m;
          dAtA = replicate (nat size) 0
      in case slice dAtA 0 size of
           Inl e \<Rightarrow> Inl e
         | Inr buf \<Rightarrow>
             (case FungibleTokenPacketData_MarshalToSizedBuffer m buf of
                Inl e \<Rightarrow> Inl e
              | Inr (dAtA', n) \<Rightarrow> slice dAtA' 0 n))"

text \<open>The loop over \<open>m.Trace\<close>, from the last element down to the first.\<close>

fun put_trace :: "string list \<Rightarrow> byte list \<times> int \<Rightarrow> error + (byte list \<times> int)" where
  "put_trace [] st = Inr st"
| "put_trace (s # ss) st =
     (case put_string 0x1a s st of
        Inl e \<Rightarrow> Inl e
      | Inr st' \<Rightarrow> put_trace ss st')"

definition put_amount :: "uint64 \<Rightarrow> byte list \<times> int \<Rightarrow> error + (byte list \<times> int)" where
  "put_amount amount st =
     (case st of (dAtA, i) \<Rightarrow>
        if amount \<noteq> 0 then
          (case encodeVarintPacket dAtA i amount of
             Inl e \<Rightarrow> Inl e
           | Inr (dAtA, i) \<Rightarrow>
               (let i = i - 1 in
                case store dAtA i 0x10 of
                  Inl e \<Rightarrow> Inl e
                | Inr dAtA \<Rightarrow> Inr (dAtA, i)))
        else Inr (dAtA, i))"

definition Token_MarshalToSizedBuffer :: "Token \<Rightarrow> byte list \<Rightarrow> error + (byte list \<times> int)" where
  "Token_MarshalToSizedBuffer m dAtA =
     (case (if length (Trace m) > 0 then put_trace (rev (Trace m)) (dAtA, int (length dAtA))
            else Inr (dAtA, int (length dAtA))) of
        Inl e \<Rightarrow> Inl e
      | Inr st \<Rightarrow>
     (case put_amount (TokenAmount m) st of
        Inl e \<Rightarrow> Inl e
      | Inr st \<Rightarrow>
     (case put_string_nonempty 0xa (TokenDenom m) st of
        Inl e \<Rightarrow> Inl e
      | Inr (dAtA', i) \<Rightarrow> Inr (dAtA', int (length dAtA) - i))))"

definition Token_Size :: "Token \<Rightarrow> int" where
  "Token_Size m =
     (if length (TokenDenom m) > 0 then string_field_size (TokenDenom m) else 0)
   + (if TokenAmount m \<noteq> 0 then 1 + sovPacket (TokenAmount m) else 0)
   + (if length (Trace m) > 0 then sum_list (map string_field_size (Trace m)) else 0)"


text \<open>
  The body of the loop over \<open>m.Tokens\<close>: the token is written into the prefix
  \<open>dAtA[:i]\<close> of the buffer, which shares its storage with \<open>dAtA\<close>.
\<close>

definition put_token :: "Token \<Rightarrow> byte list \<times> int \<Rightarrow> error + (byte list \<times> int)" where
  "put_token t st =
     (case st of (dAtA, i) \<Rightarrow>
        (case slice dAtA 0 i of
           Inl e \<Rightarrow> Inl e
         | Inr buf \<Rightarrow>
             (case Token_MarshalToSizedBuffer t buf of
                Inl e \<Rightarrow> Inl e
              | Inr (buf', sz) \<Rightarrow>
                  (let dAtA = buf' @ drop (nat i) dAtA; i = i - sz in
                   case encodeVarintPacket dAtA i (word_of_int sz) of
                     Inl e \<Rightarrow> Inl e
                   | Inr (dAtA, i) \<Rightarrow>
                       (let i = i - 1 in
                        case store dAtA i 0xa of
                          Inl e \<Rightarrow> Inl e
                        | Inr dAtA \<Rightarrow> Inr (dAtA, i))))))"

text \<open>The loop over \<open>m.Tokens\<close>, from the last element down to the first.\<close>

fun put_tokens :: "Token list \<Rightarrow> byte list \<times> int \<Rightarrow> error + (byte list \<times> int)" where
  "put_tokens [] st = Inr st"
| "put_tokens (t # ts) st =
     (case put_token t st of
        Inl e \<Rightarrow> Inl e
      | Inr st' \<Rightarrow> put_tokens ts st')"

definition FungibleTokenPacketDataV2_MarshalToSizedBuffer ::
  "FungibleTokenPacketDataV2 \<Rightarrow> byte list \<Rightarrow> error + (byte list \<times> int)" where
  "FungibleTokenPacketDataV2_MarshalToSizedBuffer m dAtA =
     (case put_string_nonempty 0x22 (MemoV2 m) (dAtA, int (length dAtA)) of
        Inl e \<Rightarrow> Inl e
      | Inr st \<Rightarrow>
     (case put_string_nonempty 0x1a (ReceiverV2 m) st of
        Inl e \<Rightarrow> Inl e
      | Inr st \<Rightarrow>
     (case put_string_nonempty 0x12 (SenderV2 m) st of
        Inl e \<Rightarrow> Inl e
      | Inr st \<Rightarrow>
     (case (if length (Tokens m) > 0 then put_tokens (rev (Tokens m)) st else Inr st) of
        Inl e \<Rightarrow> Inl e
      | Inr (dAtA', i) \<Rightarrow> Inr (dAtA', int (length dAtA) - i)))))"

definition token_field_size :: "Token \<Rightarrow> int" where
  "token_field_size e = 1 + Token_Size e + sovPacket (word_of_int (Token_Size e))"

definition FungibleTokenPacketDataV2_Size :: "FungibleTokenPacketDataV2 \<Rightarrow> int" where
  "FungibleTokenPacketDataV2_Size m =
     (if length (Tokens m) > 0 then sum_list (map token_field_size (Tokens m)) else 0)
   + (if length (SenderV2 m) > 0 then string_field_size (SenderV2 m) else 0)
   + (if length (ReceiverV2 m) > 0 then string_field_size (ReceiverV2 m) else 0)
   + (if length (MemoV2 m) > 0 then string_field_size (MemoV2 m) else 0)"

definition FungibleTokenPacketDataV2_Marshal ::
  "FungibleTokenPacketDataV2 \<Rightarrow> error + byte list" where
  "FungibleTokenPacketDataV2_Marshal m =
     (let size = FungibleTokenPacketDataV2_Size m;
          dAtA = replicate (nat size) 0
      in case slice dAtA 0 size of
           Inl e \<Rightarrow> Inl e
         | Inr buf \<Rightarrow>
             (case FungibleTokenPacketDataV2_MarshalToSizedBuffer m buf of
                Inl e \<Rightarrow> Inl e
              | Inr (dAtA', n) \<Rightarrow> slice dAtA' 0 n))"

function wire_varint :: "uint64 \<Rightarrow> byte list" where
  "wire_varint v =
     (if v \<ge> 0x80 then ucast ((v AND 0x7f) OR 0x80) # wire_varint (drop_bit 7 v)
      else [ucast v])"
  by pat_completeness auto
termination
proof (relation "measure unat")
  show "wf (measure (unat :: uint64 \<Rightarrow> nat))"
    by simp
next
  fix v :: uint64
  assume "0x80 \<le> v"
  then have "0 < unat v"
    by (simp add: word_le_nat_alt)
  then have "unat v div 2 ^ 7 < unat v"
    by simp
  then show "(drop_bit 7 v, v) \<in> measure unat"
    by (simp add: drop_bit_eq_div unat_div)
qed

declare wire_varint.simps [simp del]

definition wire_string :: "byte \<Rightarrow> string \<Rightarrow> byte list" where
  "wire_string tag s = tag # wire_varint (of_nat (length s)) @ bytes_of_string s"

definition wire_string_nonempty :: "byte \<Rightarrow> string \<Rightarrow> byte list" where
  "wire_string_nonempty tag s = (if s = [] then [] else wire_string tag s)"

definition wire_amount :: "uint64 \<Rightarrow> byte list" where
  "wire_amount a = (if a = 0 then [] else 0x10 # wire_varint a)"

definition wire_FungibleTokenPacketData :: "FungibleTokenPacketData \<Rightarrow> byte list" where
  "wire_FungibleTokenPacketData m =
     wire_string_nonempty 0xa (Denom m) @ wire_string_nonempty 0x12 (Amount m)
     @ wire_string_nonempty 0x1a (Sender m) @ wire_string_nonempty 0x22 (Receiver m)
     @ wire_string_nonempty 0x2a (Memo m)"

definition wire_Token :: "Token \<Rightarrow> byte list" where
  "wire_Token m =
     wire_string_nonempty 0xa (TokenDenom m) @ wire_amount (TokenAmount m)
     @ concat (map (wire_string 0x1a) (Trace m))"

definition wire_token_field :: "Token \<Rightarrow> byte list" where
  "wire_token_field t = 0xa # wire_varint (of_nat (length (wire_Token t))) @ wire_Token t"

definition wire_FungibleTokenPacketDataV2 :: "FungibleTokenPacketDataV2 \<Rightarrow> byte list" where
  "wire_FungibleTokenPacketDataV2 m =
     concat (map wire_token_field (Tokens m)) @ wire_string_nonempty 0x12 (SenderV2 m)
     @ wire_string_nonempty 0x1a (ReceiverV2 m) @ wire_string_nonempty 0x22 (MemoV2 m)"

text \<open>
  \<open>writes w f\<close>: run on a buffer whose \<open>length w\<close> bytes below index \<open>i\<close> are free,
  \<open>f\<close> fills them with \<open>w\<close>, moves \<open>i\<close> down by \<open>length w\<close> and changes nothing else.
\<close>

definition writes ::
  "byte list \<Rightarrow> (byte list \<times> int \<Rightarrow> error + (byte list \<times> int)) \<Rightarrow> bool" where
  "writes w f =
     (\<forall>A C B. length C = length w \<longrightarrow>
        f (A @ C @ B, int (length A + length C)) = Inr (A @ w @ B, int (length A)))"

section \<open>Positions of the decoder and malformed fields\<close>








section \<open>Validation and memo probes\<close>

text \<open>
  \<^verbatim>\<open>ValidateBasic\<close>, \<^verbatim>\<open>getCallbackData\<close> and the getters built on it call functions
  that are not among the source files: \<^verbatim>\<open>sdkmath.NewIntFromString\<close>,
  \<^verbatim>\<open>strings.TrimSpace\<close>, \<^verbatim>\<open>ValidatePrefixedDenom\<close>, \<^verbatim>\<open>json.Unmarshal\<close> and
  \<^verbatim>\<open>base64.StdEncoding.DecodeString\<close>. They are parameters of the model, collected in
  a record; a result pair \<^verbatim>\<open>(value, ok)\<close> or \<^verbatim>\<open>(value, err)\<close> is an option.
\<close>

datatype validation_error = ErrInvalidAmount | ErrInvalidAddress | ErrInvalidDenomForTransfer

text \<open>
  The values \<^verbatim>\<open>json.Unmarshal\<close> stores in an \<^verbatim>\<open>interface{}\<close>: \<^verbatim>\<open>nil\<close>, \<^verbatim>\<open>bool\<close>,
  \<^verbatim>\<open>float64\<close> (kept as mantissa and exponent; no probe looks at a number), \<^verbatim>\<open>string\<close>,
  \<^verbatim>\<open>[]interface{}\<close> and \<^verbatim>\<open>map[string]interface{}\<close>, the last as an association list
  read with \<open>map_of\<close>.
\<close>

datatype json =
    JNull
  | JBool bool
  | JNumber int int
  | JString string
  | JArray "json list"
  | JObject "(string \<times> json) list"

record externals =
  NewIntFromString :: "string \<Rightarrow> int option"
  TrimSpace :: "string \<Rightarrow> string"
  ValidatePrefixedDenom :: "string \<Rightarrow> validation_error option"
  json_Unmarshal :: "string \<Rightarrow> (string \<times> json) list option"
  base64_DecodeString :: "string \<Rightarrow> string option"

text \<open>\<^verbatim>\<open>ValidateBasic\<close>: \<open>None\<close> is the \<^verbatim>\<open>nil\<close> error.\<close>

definition ValidateBasic :: "externals \<Rightarrow> FungibleTokenPacketData \<Rightarrow> validation_error option" where
  "ValidateBasic ext ftpd =
     (case NewIntFromString ext (Amount ftpd) of
        None \<Rightarrow> Some ErrInvalidAmount
      | Some amount \<Rightarrow>
          if \<not> 0 < amount then Some ErrInvalidAmount
          else if TrimSpace ext (Sender ftpd) = [] then Some ErrInvalidAddress
          else if TrimSpace ext (Receiver ftpd) = [] then Some ErrInvalidAddress
          else ValidatePrefixedDenom ext (Denom ftpd))"

text \<open>
  \<^verbatim>\<open>getCallbackData\<close>: \<open>None\<close> is the \<^verbatim>\<open>nil\<close> map. \<open>json_Unmarshal ext memo\<close> is the
  content of the fresh map after \<^verbatim>\<open>json.Unmarshal([]byte(memo), &jsonObject)\<close>, or \<open>None\<close>
  when that call returns an error.
\<close>

definition getCallbackData ::
  "externals \<Rightarrow> FungibleTokenPacketData \<Rightarrow> (string \<times> json) list option" where
  "getCallbackData ext ftpd =
     (if length (Memo ftpd) = 0 then None
      else case json_Unmarshal ext (Memo ftpd) of
             None \<Rightarrow> None
           | Some jsonObject \<Rightarrow>
               (case map_of jsonObject ''callback'' of
                  Some (JObject callbackData) \<Rightarrow> Some callbackData
                | _ \<Rightarrow> None))"

definition GetSourceCallbackAddress :: "externals \<Rightarrow> FungibleTokenPacketData \<Rightarrow> string" where
  "GetSourceCallbackAddress ext ftpd =
     (case getCallbackData ext ftpd of
        None \<Rightarrow> []
      | Some callbackData \<Rightarrow>
          (case map_of callbackData ''src_callback_address'' of
             Some (JString srcCallbackAddress) \<Rightarrow> srcCallbackAddress
           | _ \<Rightarrow> []))"

definition GetDestCallbackAddress :: "externals \<Rightarrow> FungibleTokenPacketData \<Rightarrow> string" where
  "GetDestCallbackAddress ext ftpd =
     (case getCallbackData ext ftpd of
        None \<Rightarrow> []
      | Some callbackData \<Rightarrow>
          (case map_of callbackData ''dest_callback_address'' of
             Some (JString srcCallbackAddress) \<Rightarrow> srcCallbackAddress
           | _ \<Rightarrow> []))"

text \<open>\<^verbatim>\<open>GetUserDefinedCustomMessage\<close>: \<open>None\<close> is the \<^verbatim>\<open>nil\<close> byte slice.\<close>

definition GetUserDefinedCustomMessage ::
  "externals \<Rightarrow> FungibleTokenPacketData \<Rightarrow> string option" where
  "GetUserDefinedCustomMessage ext ftpd =
     (case getCallbackData ext ftpd of
        None \<Rightarrow> None
      | Some callbackData \<Rightarrow>
          (case map_of callbackData ''callback_msg'' of
             Some (JString callbackMsg) \<Rightarrow>
               (case base64_DecodeString ext callbackMsg of
                  None \<Rightarrow> None
                | Some base64DecodedMsg \<Rightarrow> Some base64DecodedMsg)
           | _ \<Rightarrow> None))"

text \<open>
  The memo carries no callback object: it is empty, \<^verbatim>\<open>json.Unmarshal\<close> rejects it, or the
  object it holds has no key \<^verbatim>\<open>"callback"\<close> with an object as its value.
\<close>

definition no_callback_object :: "externals \<Rightarrow> FungibleTokenPacketData \<Rightarrow> bool" where
  "no_callback_object ext ftpd =
     (Memo ftpd = []
      \<or> (case json_Unmarshal ext (Memo ftpd) of
            None \<Rightarrow> True
          | Some jsonObject \<Rightarrow>
              (case map_of jsonObject ''callback'' of
                 Some (JObject callbackData) \<Rightarrow> False
               | _ \<Rightarrow> True)))"

text \<open>
  The condition of the specification on a legacy payload, as its data model words it: the
  amount parses to a strictly positive integer, sender and receiver are non-empty strings,
  and the denomination passes the grammar validator.
\<close>

definition valid_as_specified :: "externals \<Rightarrow> FungibleTokenPacketData \<Rightarrow> bool" where
  "valid_as_specified ext ftpd =
     ((case NewIntFromString ext (Amount ftpd) of None \<Rightarrow> False | Some amount \<Rightarrow> 0 < amount)
      \<and> Sender ftpd \<noteq> [] \<and> Receiver ftpd \<noteq> []
      \<and> ValidatePrefixedDenom ext (Denom ftpd) = None)"

text \<open>
  An instance of the library functions for the examples below, exact on the inputs the
  examples use: decimal digit strings for the amount, ASCII white space for
  \<^verbatim>\<open>TrimSpace\<close>, the denominations \<^verbatim>\<open>uatom\<close> and \<^verbatim>\<open>transfer/channel-0/uatom\<close>, one memo.
\<close>

fun digits_value :: "string \<Rightarrow> int \<Rightarrow> int option" where
  "digits_value [] acc = Some acc"
| "digits_value (c # cs) acc =
     (if (48 :: nat) \<le> of_char c \<and> of_char c \<le> (57 :: nat)
      then digits_value cs (10 * acc + (of_char c - 48))
      else None)"

definition ascii_space :: "char \<Rightarrow> bool" where
  "ascii_space c = (c \<in> set [CHR 0x09, CHR 0x0A, CHR 0x0B, CHR 0x0C, CHR 0x0D, CHR '' ''])"

definition quoted :: "string \<Rightarrow> string" where
  "quoted s = CHR 0x22 # s @ [CHR 0x22]"

definition sample_memo :: string where
  "sample_memo =
     ''{'' @ quoted ''callback'' @ '':{'' @ quoted ''src_callback_address'' @ '':''
       @ quoted ''cosmos1src'' @ '','' @ quoted ''dest_callback_address'' @ '':''
       @ quoted ''cosmos1dst'' @ ''}}''"

definition sample_memo_object :: "(string \<times> json) list" where
  "sample_memo_object =
     [(''callback'', JObject [(''src_callback_address'', JString ''cosmos1src''),
                              (''dest_callback_address'', JString ''cosmos1dst'')])]"

definition sample_externals :: externals where
  "sample_externals =
     \<lparr>NewIntFromString = (\<lambda>s. if s = [] then None else digits_value s 0),
      TrimSpace = (\<lambda>s. rev (dropWhile ascii_space (rev (dropWhile ascii_space s)))),
      ValidatePrefixedDenom =
        (\<lambda>s. if s \<in> set [''uatom'', ''transfer/channel-0/uatom''] then None
             else Some ErrInvalidDenomForTransfer),
      json_Unmarshal =
        (\<lambda>s. if s = sample_memo then Some sample_memo_object else None),
      base64_DecodeString = (\<lambda>s. None)\<rparr>"

definition blank_sender_packet :: FungibleTokenPacketData where
  "blank_sender_packet =
     \<lparr>Denom = ''uatom'', Amount = ''1'', Sender = '' '', Receiver = ''bob'', Memo = []\<rparr>"

definition sample_packet :: FungibleTokenPacketData where
  "sample_packet =
     \<lparr>Denom = ''transfer/channel-0/uatom'', Amount = ''100'', Sender = ''alice'',
      Receiver = ''bob'', Memo = sample_memo\<rparr>"

section \<open>Forwarding state tracker\<close>

text \<open>
  The tracker is not part of the source files at hand (only an end-to-end test of
  forwarding is); it is modelled from section 4.3 of the specification. A packet key is
  the triple (channel identifier, port identifier, sequence number) of the packet this
  chain sent onward.
\<close>

type_synonym packet_key = "string \<times> string \<times> nat"

record forward_entry =
  origin_packet :: "string \<times> string \<times> nat"
  reversals :: "(string \<times> nat) list"
  original_sender :: string
  remaining_hops :: "(string \<times> string) list option"

record chain_state =
  tracker :: "packet_key \<rightharpoonup> forward_entry"
  ledger :: "string \<times> string \<Rightarrow> int"

datatype tracker_error = DuplicateForward

datatype resolution = Found forward_entry | NotFound

text \<open>
  Modelled from the spec: \<open>begin(outgoingPacketKey, entry)\<close> of section 4.3, which
  fails with \<open>DuplicateForward\<close> if the key already has an open entry and records the
  entry otherwise.
\<close>

definition begin_forward ::
  "packet_key \<Rightarrow> forward_entry \<Rightarrow> chain_state \<Rightarrow> tracker_error + chain_state" where
  "begin_forward k e s =
     (case tracker s k of
        Some _ \<Rightarrow> Inl DuplicateForward
      | None \<Rightarrow> Inr (s\<lparr>tracker := (tracker s)(k \<mapsto> e)\<rparr>))"

text \<open>
  Modelled from the spec: \<open>resolve(outgoingPacketKey)\<close> of section 4.3, an atomic
  lookup-and-remove that answers \<open>NotFound\<close> for a key with no open entry.
\<close>

definition resolve :: "packet_key \<Rightarrow> chain_state \<Rightarrow> resolution \<times> chain_state" where
  "resolve k s =
     (case tracker s k of
        None \<Rightarrow> (NotFound, s)
      | Some e \<Rightarrow> (Found e, s\<lparr>tracker := (tracker s)(k := None)\<rparr>))"

text \<open>The state after \<open>n\<close> further calls of \<open>resolve\<close> on the same key.\<close>

fun resolve_again :: "nat \<Rightarrow> packet_key \<Rightarrow> chain_state \<Rightarrow> chain_state" where
  "resolve_again 0 k s = s"
| "resolve_again (Suc n) k s = resolve_again n k (snd (resolve k s))"

definition sample_entry :: forward_entry where
  "sample_entry = \<lparr>origin_packet = (''transfer'', ''channel-0'', 1),
     reversals = [(''uatom'', 100)], original_sender = ''alice'', remaining_hops = None\<rparr>"

definition sample_state :: chain_state where
  "sample_state = \<lparr>tracker = Map.empty, ledger = (\<lambda>_. 0)\<rparr>"

definition sample_key :: packet_key where
  "sample_key = (''channel-1'', ''transfer'', 7)"

section \<open>Example payloads\<close>

definition sample_token :: Token where
  "sample_token =
     \<lparr>TokenDenom = ''uatom'', TokenAmount = 300,
      Trace = [''transfer/channel-0'', ''transfer/channel-7'']\<rparr>"

definition sample_packet_v2 :: FungibleTokenPacketDataV2 where
  "sample_packet_v2 =
     \<lparr>Tokens = [sample_token, \<lparr>TokenDenom = ''stake'', TokenAmount = 1, Trace = []\<rparr>],
      SenderV2 = ''alice'', ReceiverV2 = ''bob'', MemoV2 = []\<rparr>"

text \<open>
  A legacy payload on the wire with its fields out of schema order: field 2
  (\<^verbatim>\<open>amount = "1"\<close>) before field 1 (\<^verbatim>\<open>denom = "a"\<close>).
\<close>

definition swapped_fields :: "byte list" where
  "swapped_fields = [0x12, 0x01, 0x31, 0x0a, 0x01, 0x61]"


section \<open>Lemmas about the encoder and the decoder\<close>

lemma bit_length_le: "n < 2 ^ k \<Longrightarrow> bit_length n \<le> k"
proof (induction k arbitrary: n)
  case 0
  then show ?case by (simp add: bit_length.simps)
next
  case (Suc k)
  from Suc.prems have "n div 2 < 2 ^ k"
    by simp
  then have "bit_length (n div 2) \<le> k"
    by (rule Suc.IH)
  then show ?case
    by (subst bit_length.simps) simp
qed

lemma bit_length_pos: "0 < n \<Longrightarrow> 0 < bit_length n"
  by (subst bit_length.simps) simp

lemma bit_length_shift7: "128 \<le> n \<Longrightarrow> bit_length n = 7 + bit_length (n div 128)"
proof -
  assume n: "128 \<le> n"
  have step: "bit_length k = Suc (bit_length (k div 2))" if "0 < k" for k
    using that by (subst bit_length.simps) simp
  have d: "n div 2 div 2 div 2 div 2 div 2 div 2 div 2 = n div 128"
    by (simp add: div_mult2_eq [symmetric])
  from n have "0 < n" "0 < n div 2" "0 < n div 2 div 2" "0 < n div 2 div 2 div 2"
    "0 < n div 2 div 2 div 2 div 2" "0 < n div 2 div 2 div 2 div 2 div 2"
    "0 < n div 2 div 2 div 2 div 2 div 2 div 2"
    by (simp_all add: div_mult2_eq [symmetric] div_greater_zero_iff)
  then show ?thesis
    using d by (simp add: step)
qed

lemma bit_length_or1: "0 < n \<Longrightarrow> bit_length (n OR Suc 0) = bit_length n"
proof -
  assume n: "0 < n"
  have eq: "n OR Suc 0 = n + of_bool (even n)"
    using or_one_eq [of n] by simp
  have "(n OR Suc 0) div 2 = n div 2"
    unfolding eq by (cases "even n") auto
  moreover have "0 < n OR Suc 0"
    unfolding eq using n by simp
  ultimately show ?thesis
    using n by (subst bit_length.simps, subst (2) bit_length.simps) simp
qed

lemma Len64_or1: "Len64 (v OR 1) = bit_length (max 1 (unat v))"
proof (cases "v = 0")
  case True
  then show ?thesis by (simp add: Len64_def)
next
  case False
  then have pos: "0 < unat v"
    by (simp add: unat_gt_0)
  have "unat (v OR 1) = unat v OR 1"
    by (simp add: unsigned_or_eq)
  with pos show ?thesis
    by (simp add: Len64_def bit_length_or1 max_def)
qed

lemma sovPacket_small: "v < 0x80 \<Longrightarrow> sovPacket v = 1"
proof -
  assume "v < 0x80"
  then have "unat v < 128"
    by (simp add: word_less_nat_alt)
  then have "max 1 (unat v) < 2 ^ 7"
    by simp
  then have "bit_length (max 1 (unat v)) \<le> 7"
    by (rule bit_length_le)
  moreover have "0 < bit_length (max 1 (unat v))"
    by (rule bit_length_pos) simp
  ultimately show ?thesis
    by (simp add: sovPacket_def Len64_or1)
qed

lemma sovPacket_large: "0x80 \<le> v \<Longrightarrow> sovPacket v = 1 + sovPacket (drop_bit 7 v)"
proof -
  assume "0x80 \<le> v"
  then have big: "128 \<le> unat v"
    by (simp add: word_le_nat_alt)
  then have "1 \<le> unat v div 128"
    by (simp add: div_greater_zero_iff Suc_le_eq)
  moreover have "unat (drop_bit 7 v) = unat v div 128"
    by (simp add: drop_bit_eq_div unat_div)
  ultimately have "max 1 (unat (drop_bit 7 v)) = unat v div 128"
    by simp
  moreover from big have "max 1 (unat v) = unat v"
    by simp
  ultimately show ?thesis
    using bit_length_shift7 [OF big] by (simp add: sovPacket_def Len64_or1)
qed

lemma length_wire_varint: "int (length (wire_varint v)) = sovPacket v"
proof (induction v rule: wire_varint.induct)
  case (1 v)
  show ?case
  proof (cases "0x80 \<le> v")
    case True
    with "1.IH" show ?thesis
      using sovPacket_large [of v] by (subst wire_varint.simps) simp
  next
    case False
    then have "v < 0x80"
      by simp
    then have "sovPacket v = 1"
      by (rule sovPacket_small)
    with False show ?thesis
      by (subst wire_varint.simps) simp
  qed
qed

lemma sovPacket_pos: "0 < sovPacket v"
  using sovPacket_small [of v] sovPacket_large [of v] length_wire_varint [of "drop_bit 7 v"]
  by (cases "0x80 \<le> v") auto

lemma writesI:
  "(\<And>A C B. length C = length w \<Longrightarrow>
      f (A @ C @ B, int (length A + length C)) = Inr (A @ w @ B, int (length A)))
   \<Longrightarrow> writes w f"
  by (simp add: writes_def)

lemma writesD:
  "writes w f \<Longrightarrow> length C = length w \<Longrightarrow>
     f (A @ C @ B, int (length A + length C)) = Inr (A @ w @ B, int (length A))"
  by (simp add: writes_def)

lemma writes_nothing: "writes [] Inr"
  by (simp add: writes_def)

lemma writes_seq:
  assumes f: "writes w1 f" and g: "writes w2 g"
  shows "writes (w2 @ w1) (\<lambda>st. case f st of Inl e \<Rightarrow> Inl e | Inr st' \<Rightarrow> g st')"
proof (rule writesI)
  fix A C B :: "byte list"
  assume len: "length C = length (w2 @ w1)"
  define C2 where "C2 = take (length w2) C"
  define C1 where "C1 = drop (length w2) C"
  have C: "C = C2 @ C1" and l2: "length C2 = length w2" and l1: "length C1 = length w1"
    using len by (simp_all add: C2_def C1_def)
  have "f (A @ C @ B, int (length A + length C))
      = f ((A @ C2) @ C1 @ B, int (length (A @ C2) + length C1))"
    by (simp add: C add.assoc)
  also have "\<dots> = Inr ((A @ C2) @ w1 @ B, int (length (A @ C2)))"
    using f l1 by (rule writesD)
  finally have first: "f (A @ C @ B, int (length A + length C))
      = Inr (A @ C2 @ (w1 @ B), int (length A + length C2))"
    by simp
  have "g (A @ C2 @ (w1 @ B), int (length A + length C2)) = Inr (A @ w2 @ (w1 @ B), int (length A))"
    using g l2 by (rule writesD)
  with first show "(case f (A @ C @ B, int (length A + length C)) of
            Inl e \<Rightarrow> Inl e | Inr st' \<Rightarrow> g st') = Inr (A @ (w2 @ w1) @ B, int (length A))"
    by simp
qed

lemma store_append: "store (A @ c # B) (int (length A)) b = Inr (A @ b # B)"
  by (simp add: store_def)

lemma encodeVarint_loop_writes:
  "length C = length (wire_varint v) \<Longrightarrow>
     encodeVarint_loop (A @ C @ B) (int (length A)) v = Inr (A @ wire_varint v @ B)"
proof (induction v arbitrary: A C rule: wire_varint.induct)
  case (1 v)
  show ?case
  proof (cases "0x80 \<le> v")
    case True
    then have wv: "wire_varint v = ucast ((v AND 0x7f) OR 0x80) # wire_varint (drop_bit 7 v)"
      by (subst wire_varint.simps) simp
    with "1.prems" obtain c C' where C: "C = c # C'"
      and len: "length C' = length (wire_varint (drop_bit 7 v))"
      by (cases C) auto
    have "encodeVarint_loop ((A @ [ucast ((v AND 0x7f) OR 0x80)]) @ C' @ B)
            (int (length (A @ [ucast ((v AND 0x7f) OR 0x80) :: byte]))) (drop_bit 7 v)
        = Inr ((A @ [ucast ((v AND 0x7f) OR 0x80)]) @ wire_varint (drop_bit 7 v) @ B)"
      using True len by (rule "1.IH")
    then show ?thesis
      using True by (subst encodeVarint_loop.simps) (simp add: C wv store_append add.commute)
  next
    case False
    then have wv: "wire_varint v = [ucast v]"
      by (subst wire_varint.simps) simp
    with "1.prems" obtain c where C: "C = [c]"
      by (cases C) auto
    show ?thesis
      using False by (subst encodeVarint_loop.simps) (simp add: C wv store_append)
  qed
qed

lemma encodeVarintPacket_writes:
  "writes (wire_varint v) (\<lambda>(dAtA, i). encodeVarintPacket dAtA i v)"
proof (rule writesI)
  fix A C B :: "byte list"
  assume len: "length C = length (wire_varint v)"
  then have "int (length A + length C) - sovPacket v = int (length A)"
    using length_wire_varint [of v] by simp
  then show "(case (A @ C @ B, int (length A + length C)) of
           (dAtA, i) \<Rightarrow> encodeVarintPacket dAtA i v) = Inr (A @ wire_varint v @ B, int (length A))"
    using encodeVarint_loop_writes [OF len, of A B]
    by (simp add: encodeVarintPacket_def Let_def)
qed

lemma copy_at_writes:
  "writes (bytes_of_string s)
     (\<lambda>(dAtA, i). case copy_at dAtA (i - int (length s)) s of
                    Inl e \<Rightarrow> Inl e | Inr dAtA' \<Rightarrow> Inr (dAtA', i - int (length s)))"
  by (rule writesI) (simp add: copy_at_def bytes_of_string_def Let_def)

lemma store_writes:
  "writes [b] (\<lambda>(dAtA, i). case store dAtA (i - 1) b of
                             Inl e \<Rightarrow> Inl e | Inr dAtA' \<Rightarrow> Inr (dAtA', i - 1))"
proof (rule writesI)
  fix A C B :: "byte list"
  assume "length C = length [b]"
  then obtain c where "C = [c]"
    by (cases C) auto
  then show "(case (A @ C @ B, int (length A + length C)) of
           (dAtA, i) \<Rightarrow> case store dAtA (i - 1) b of
              Inl e \<Rightarrow> Inl e | Inr dAtA' \<Rightarrow> Inr (dAtA', i - 1)) = Inr (A @ [b] @ B, int (length A))"
    by (simp add: store_append)
qed

lemma put_string_writes: "writes (wire_string tag s) (put_string tag s)"
proof -
  let ?copy = "\<lambda>(dAtA, i). case copy_at dAtA (i - int (length s)) s of
                    Inl e \<Rightarrow> Inl e | Inr dAtA' \<Rightarrow> Inr (dAtA', i - int (length s))"
  let ?len = "\<lambda>(dAtA, i). encodeVarintPacket dAtA i (of_nat (length s))"
  let ?tag = "\<lambda>(dAtA, i). case store dAtA (i - 1) tag of
                             Inl e \<Rightarrow> Inl e | Inr dAtA' \<Rightarrow> Inr (dAtA', i - 1)"
  have "writes ([tag] @ wire_varint (of_nat (length s)) @ bytes_of_string s)
     (\<lambda>st. case (case ?copy st of Inl e \<Rightarrow> Inl e | Inr st' \<Rightarrow> ?len st') of
              Inl e \<Rightarrow> Inl e | Inr st' \<Rightarrow> ?tag st')"
    using writes_seq [OF writes_seq [OF copy_at_writes encodeVarintPacket_writes] store_writes]
    by simp
  moreover have "put_string tag s =
     (\<lambda>st. case (case ?copy st of Inl e \<Rightarrow> Inl e | Inr st' \<Rightarrow> ?len st') of
              Inl e \<Rightarrow> Inl e | Inr st' \<Rightarrow> ?tag st')"
    by (rule ext) (simp add: put_string_def Let_def split: prod.splits sum.splits)
  ultimately show ?thesis
    by (simp add: wire_string_def)
qed

lemma put_string_nonempty_writes:
  "writes (wire_string_nonempty tag s) (put_string_nonempty tag s)"
proof (cases "s = []")
  case True
  then have "put_string_nonempty tag s = Inr"
    by (intro ext) (simp add: put_string_nonempty_def)
  with True show ?thesis
    by (simp add: wire_string_nonempty_def writes_nothing)
next
  case False
  then have "put_string_nonempty tag s = put_string tag s"
    by (intro ext) (simp add: put_string_nonempty_def)
  with False show ?thesis
    by (simp add: wire_string_nonempty_def put_string_writes)
qed

lemma string_field_size: "string_field_size s = int (length (wire_string tag s))"
  using length_wire_varint [of "of_nat (length s)"]
  by (simp add: string_field_size_def wire_string_def bytes_of_string_def)

lemma length_wire_string_nonempty:
  "int (length (wire_string_nonempty tag s)) = (if length s > 0 then string_field_size s else 0)"
  by (simp add: wire_string_nonempty_def string_field_size [of s tag])

lemma FungibleTokenPacketData_Size_wire:
  "FungibleTokenPacketData_Size m = int (length (wire_FungibleTokenPacketData m))"
  unfolding FungibleTokenPacketData_Size_def wire_FungibleTokenPacketData_def
  by (simp only: length_append of_nat_add length_wire_string_nonempty)

lemma FungibleTokenPacketData_writes:
  "writes (wire_FungibleTokenPacketData m)
     (\<lambda>st. case put_string_nonempty 0x2a (Memo m) st of Inl e \<Rightarrow> Inl e | Inr st \<Rightarrow>
        (case put_string_nonempty 0x22 (Receiver m) st of Inl e \<Rightarrow> Inl e | Inr st \<Rightarrow>
        (case put_string_nonempty 0x1a (Sender m) st of Inl e \<Rightarrow> Inl e | Inr st \<Rightarrow>
        (case put_string_nonempty 0x12 (Amount m) st of Inl e \<Rightarrow> Inl e | Inr st \<Rightarrow>
           put_string_nonempty 0xa (Denom m) st))))"
  unfolding wire_FungibleTokenPacketData_def
  using writes_seq [OF put_string_nonempty_writes [of "0x2a" "Memo m"]
      writes_seq [OF put_string_nonempty_writes [of "0x22" "Receiver m"]
      writes_seq [OF put_string_nonempty_writes [of "0x1a" "Sender m"]
      writes_seq [OF put_string_nonempty_writes [of "0x12" "Amount m"]
        put_string_nonempty_writes [of "0xa" "Denom m"]]]]]
  by simp

lemma FungibleTokenPacketData_MarshalToSizedBuffer_wire:
  assumes "length C = length (wire_FungibleTokenPacketData m)"
  shows "FungibleTokenPacketData_MarshalToSizedBuffer m (A @ C)
       = Inr (A @ wire_FungibleTokenPacketData m, int (length C))"
proof -
  have "FungibleTokenPacketData_MarshalToSizedBuffer m (A @ C) =
     (case (\<lambda>st. case put_string_nonempty 0x2a (Memo m) st of Inl e \<Rightarrow> Inl e | Inr st \<Rightarrow>
        (case put_string_nonempty 0x22 (Receiver m) st of Inl e \<Rightarrow> Inl e | Inr st \<Rightarrow>
        (case put_string_nonempty 0x1a (Sender m) st of Inl e \<Rightarrow> Inl e | Inr st \<Rightarrow>
        (case put_string_nonempty 0x12 (Amount m) st of Inl e \<Rightarrow> Inl e | Inr st \<Rightarrow>
           put_string_nonempty 0xa (Denom m) st)))) (A @ C @ [], int (length A + length C)) of
        Inl e \<Rightarrow> Inl e
      | Inr (dAtA', i) \<Rightarrow> Inr (dAtA', int (length (A @ C)) - i))"
    by (simp add: FungibleTokenPacketData_MarshalToSizedBuffer_def split: sum.splits)
  also have "\<dots> = Inr (A @ wire_FungibleTokenPacketData m, int (length C))"
    by (simp only: writesD [OF FungibleTokenPacketData_writes assms]) simp
  finally show ?thesis .
qed

lemma slice_all: "slice xs 0 (int (length xs)) = Inr xs"
  by (simp add: slice_def)

lemma FungibleTokenPacketData_Marshal_wire:
  "FungibleTokenPacketData_Marshal m = Inr (wire_FungibleTokenPacketData m)"
proof -
  let ?w = "wire_FungibleTokenPacketData m"
  let ?buf = "replicate (length ?w) (0 :: byte)"
  have "FungibleTokenPacketData_MarshalToSizedBuffer m ([] @ ?buf) = Inr ([] @ ?w, int (length ?buf))"
    by (rule FungibleTokenPacketData_MarshalToSizedBuffer_wire) simp
  then have buf: "FungibleTokenPacketData_MarshalToSizedBuffer m ?buf = Inr (?w, int (length ?w))"
    by simp
  have "slice ?buf 0 (int (length ?w)) = Inr ?buf"
    using slice_all [of ?buf] by simp
  then show ?thesis
    by (simp add: FungibleTokenPacketData_Marshal_def FungibleTokenPacketData_Size_wire
        Let_def buf slice_all)
qed

lemma put_trace_writes: "writes (concat (map (wire_string 0x1a) (rev ss))) (put_trace ss)"
proof (induction ss)
  case Nil
  have "put_trace [] = Inr"
    by (rule ext) simp
  then show ?case
    by (simp add: writes_nothing)
next
  case (Cons s ss)
  have "put_trace (s # ss) =
      (\<lambda>st. case put_string 0x1a s st of Inl e \<Rightarrow> Inl e | Inr st' \<Rightarrow> put_trace ss st')"
    by (rule ext) simp
  then show ?case
    using writes_seq [OF put_string_writes [of "0x1a" s] Cons.IH] by simp
qed

lemma put_amount_writes: "writes (wire_amount a) (put_amount a)"
proof (cases "a = 0")
  case True
  then have "put_amount a = Inr"
    by (intro ext) (simp add: put_amount_def split: prod.splits)
  with True show ?thesis
    by (simp add: wire_amount_def writes_nothing)
next
  case False
  have "put_amount a =
     (\<lambda>st. case (case st of (dAtA, i) \<Rightarrow> encodeVarintPacket dAtA i a) of
        Inl e \<Rightarrow> Inl e
      | Inr st' \<Rightarrow> (case st' of (dAtA, i) \<Rightarrow> case store dAtA (i - 1) 0x10 of
                             Inl e \<Rightarrow> Inl e | Inr dAtA' \<Rightarrow> Inr (dAtA', i - 1)))"
    using False by (intro ext) (simp add: put_amount_def Let_def split: prod.splits sum.splits)
  then show ?thesis
    using False writes_seq [OF encodeVarintPacket_writes [of a] store_writes [of "0x10"]]
    by (simp add: wire_amount_def)
qed

lemma Token_writes:
  "writes (wire_Token m)
     (\<lambda>st. case put_trace (rev (Trace m)) st of Inl e \<Rightarrow> Inl e | Inr st \<Rightarrow>
        (case put_amount (TokenAmount m) st of Inl e \<Rightarrow> Inl e | Inr st \<Rightarrow>
           put_string_nonempty 0xa (TokenDenom m) st))"
  unfolding wire_Token_def
  using writes_seq [OF put_trace_writes [of "rev (Trace m)"]
      writes_seq [OF put_amount_writes [of "TokenAmount m"]
        put_string_nonempty_writes [of "0xa" "TokenDenom m"]]]
  by simp

lemma Token_MarshalToSizedBuffer_wire:
  assumes "length C = length (wire_Token m)"
  shows "Token_MarshalToSizedBuffer m (A @ C) = Inr (A @ wire_Token m, int (length C))"
proof -
  have "Token_MarshalToSizedBuffer m (A @ C) =
     (case (\<lambda>st. case put_trace (rev (Trace m)) st of Inl e \<Rightarrow> Inl e | Inr st \<Rightarrow>
        (case put_amount (TokenAmount m) st of Inl e \<Rightarrow> Inl e | Inr st \<Rightarrow>
           put_string_nonempty 0xa (TokenDenom m) st)) (A @ C @ [], int (length A + length C)) of
        Inl e \<Rightarrow> Inl e
      | Inr (dAtA', i) \<Rightarrow> Inr (dAtA', int (length (A @ C)) - i))"
    by (cases "Trace m") (simp_all add: Token_MarshalToSizedBuffer_def split: sum.splits)
  also have "\<dots> = Inr (A @ wire_Token m, int (length C))"
    by (simp only: writesD [OF Token_writes assms]) simp
  finally show ?thesis .
qed

lemma length_wire_amount:
  "int (length (wire_amount a)) = (if a \<noteq> 0 then 1 + sovPacket a else 0)"
  using length_wire_varint [of a] by (simp add: wire_amount_def)

lemma length_wire_trace:
  "int (length (concat (map (wire_string tag) ss))) = sum_list (map string_field_size ss)"
  by (induction ss) (simp_all add: string_field_size [of _ tag])

lemma sum_list_if_nonempty:
  "(if length xs > 0 then sum_list (map f xs) else (0 :: int)) = sum_list (map f xs)"
  by (cases xs) simp_all

lemma Token_Size_wire: "Token_Size m = int (length (wire_Token m))"
  unfolding Token_Size_def wire_Token_def sum_list_if_nonempty
  by (simp only: length_append of_nat_add length_wire_string_nonempty length_wire_amount
      length_wire_trace add.assoc)

lemma slice_prefix: "slice (X @ B) 0 (int (length X)) = Inr X"
  by (simp add: slice_def)


lemma put_token_writes: "writes (wire_token_field t) (put_token t)"
proof (rule writesI)
  fix A C B :: "byte list"
  let ?wt = "wire_Token t"
  let ?wv = "wire_varint (of_nat (length ?wt))"
  assume "length C = length (wire_token_field t)"
  then have len: "length C = 1 + (length ?wv + length ?wt)"
    by (simp add: wire_token_field_def)
  define c0 where "c0 = hd C"
  define Cv where "Cv = take (length ?wv) (tl C)"
  define Ct where "Ct = drop (length ?wv) (tl C)"
  have C: "C = c0 # Cv @ Ct" and lv: "length Cv = length ?wv" and lt: "length Ct = length ?wt"
    using len by (cases C; simp add: c0_def Cv_def Ct_def)+
  have sl: "slice (A @ C @ B) 0 (int (length A + length C)) = Inr ((A @ c0 # Cv) @ Ct)"
    using slice_prefix [of "A @ C" B] by (simp add: C)
  have tok: "Token_MarshalToSizedBuffer t ((A @ c0 # Cv) @ Ct)
      = Inr ((A @ c0 # Cv) @ ?wt, int (length Ct))"
    using lt by (rule Token_MarshalToSizedBuffer_wire)
  have dr: "drop (nat (int (length A + length C))) (A @ C @ B) = B"
    by simp
  have idx: "int (length A + length C) - int (length Ct) = int (length (A @ [c0]) + length Cv)"
    by (simp add: C)
  have enc: "encodeVarintPacket ((A @ [c0]) @ Cv @ (?wt @ B)) (int (length (A @ [c0]) + length Cv))
       (of_nat (length ?wt)) = Inr ((A @ [c0]) @ ?wv @ (?wt @ B), int (length (A @ [c0])))"
    using writesD [OF encodeVarintPacket_writes lv, of "A @ [c0]" "?wt @ B"] by simp
  have st: "store (A @ c0 # ?wv @ ?wt @ B) (int (length A)) 0xa = Inr (A @ 0xa # ?wv @ ?wt @ B)"
    by (rule store_append)
  show "put_token t (A @ C @ B, int (length A + length C))
      = Inr (A @ wire_token_field t @ B, int (length A))"
    unfolding put_token_def prod.case sl sum.case tok Let_def dr idx
    using enc st by (simp add: wire_token_field_def lt)
qed

lemma put_tokens_writes: "writes (concat (map wire_token_field (rev ts))) (put_tokens ts)"
proof (induction ts)
  case Nil
  have "put_tokens [] = Inr"
    by (rule ext) simp
  then show ?case
    by (simp add: writes_nothing)
next
  case (Cons t ts)
  have "put_tokens (t # ts) =
      (\<lambda>st. case put_token t st of Inl e \<Rightarrow> Inl e | Inr st' \<Rightarrow> put_tokens ts st')"
    by (rule ext) simp
  then show ?case
    using writes_seq [OF put_token_writes [of t] Cons.IH] by simp
qed

lemma FungibleTokenPacketDataV2_writes:
  "writes (wire_FungibleTokenPacketDataV2 m)
     (\<lambda>st. case put_string_nonempty 0x22 (MemoV2 m) st of Inl e \<Rightarrow> Inl e | Inr st \<Rightarrow>
        (case put_string_nonempty 0x1a (ReceiverV2 m) st of Inl e \<Rightarrow> Inl e | Inr st \<Rightarrow>
        (case put_string_nonempty 0x12 (SenderV2 m) st of Inl e \<Rightarrow> Inl e | Inr st \<Rightarrow>
           put_tokens (rev (Tokens m)) st)))"
  unfolding wire_FungibleTokenPacketDataV2_def
  using writes_seq [OF put_string_nonempty_writes [of "0x22" "MemoV2 m"]
      writes_seq [OF put_string_nonempty_writes [of "0x1a" "ReceiverV2 m"]
      writes_seq [OF put_string_nonempty_writes [of "0x12" "SenderV2 m"]
        put_tokens_writes [of "rev (Tokens m)"]]]]
  by simp

lemma FungibleTokenPacketDataV2_MarshalToSizedBuffer_wire:
  assumes "length C = length (wire_FungibleTokenPacketDataV2 m)"
  shows "FungibleTokenPacketDataV2_MarshalToSizedBuffer m (A @ C)
       = Inr (A @ wire_FungibleTokenPacketDataV2 m, int (length C))"
proof -
  have "FungibleTokenPacketDataV2_MarshalToSizedBuffer m (A @ C) =
     (case (\<lambda>st. case put_string_nonempty 0x22 (MemoV2 m) st of Inl e \<Rightarrow> Inl e | Inr st \<Rightarrow>
        (case put_string_nonempty 0x1a (ReceiverV2 m) st of Inl e \<Rightarrow> Inl e | Inr st \<Rightarrow>
        (case put_string_nonempty 0x12 (SenderV2 m) st of Inl e \<Rightarrow> Inl e | Inr st \<Rightarrow>
           put_tokens (rev (Tokens m)) st))) (A @ C @ [], int (length A + length C)) of
        Inl e \<Rightarrow> Inl e
      | Inr (dAtA', i) \<Rightarrow> Inr (dAtA', int (length (A @ C)) - i))"
    by (cases "Tokens m")
      (simp_all add: FungibleTokenPacketDataV2_MarshalToSizedBuffer_def split: sum.splits)
  also have "\<dots> = Inr (A @ wire_FungibleTokenPacketDataV2 m, int (length C))"
    by (simp only: writesD [OF FungibleTokenPacketDataV2_writes assms]) simp
  finally show ?thesis .
qed

lemma token_field_size_wire: "token_field_size t = int (length (wire_token_field t))"
  using length_wire_varint [of "of_nat (length (wire_Token t))"]
  by (simp add: token_field_size_def wire_token_field_def Token_Size_wire)

lemma length_wire_tokens:
  "int (length (concat (map wire_token_field ts))) = sum_list (map token_field_size ts)"
  by (induction ts) (simp_all add: token_field_size_wire)

lemma FungibleTokenPacketDataV2_Size_wire:
  "FungibleTokenPacketDataV2_Size m = int (length (wire_FungibleTokenPacketDataV2 m))"
  unfolding FungibleTokenPacketDataV2_Size_def wire_FungibleTokenPacketDataV2_def
    sum_list_if_nonempty
  by (simp only: length_append of_nat_add length_wire_string_nonempty length_wire_tokens
      add.assoc)

lemma FungibleTokenPacketDataV2_Marshal_wire:
  "FungibleTokenPacketDataV2_Marshal m = Inr (wire_FungibleTokenPacketDataV2 m)"
proof -
  let ?w = "wire_FungibleTokenPacketDataV2 m"
  let ?buf = "replicate (length ?w) (0 :: byte)"
  have "FungibleTokenPacketDataV2_MarshalToSizedBuffer m ([] @ ?buf)
      = Inr ([] @ ?w, int (length ?buf))"
    by (rule FungibleTokenPacketDataV2_MarshalToSizedBuffer_wire) simp
  then have buf: "FungibleTokenPacketDataV2_MarshalToSizedBuffer m ?buf = Inr (?w, int (length ?w))"
    by simp
  have "slice ?buf 0 (int (length ?w)) = Inr ?buf"
    using slice_all [of ?buf] by simp
  then show ?thesis
    by (simp add: FungibleTokenPacketDataV2_Marshal_def FungibleTokenPacketDataV2_Size_wire
        Let_def buf slice_all)
qed

lemma index_append: "index (A @ b # B) (int (length A)) = Inr b"
  by (simp add: index_def)

lemma bit_x7f: "bit (0x7f :: int) n \<longleftrightarrow> n < 7"
proof -
  have e: "(0x7f :: int) = mask 7"
    by (simp add: mask_eq_exp_minus_1)
  show ?thesis
    unfolding e bit_mask_iff by simp
qed

lemma bit_x80: "bit (0x80 :: int) n \<longleftrightarrow> n = 7"
proof -
  have e: "(0x80 :: int) = 2 ^ 7"
    by simp
  show ?thesis
    unfolding e bit_exp_iff by auto
qed

lemma varint_high_byte:
  fixes v :: uint64
  shows "\<not> (ucast ((v AND 0x7f) OR 0x80) :: byte) < 0x80"
proof -
  let ?b = "ucast ((v AND 0x7f) OR 0x80) :: byte"
  have "?b AND 0x80 = 0x80"
    by (rule bit_word_eqI) (auto simp: bit_simps bit_x7f bit_x80)
  moreover have "?b AND 0x80 \<le> ?b"
    by (rule word_and_le2)
  ultimately show ?thesis
    by (simp add: not_less)
qed

lemma varint_high_byte_payload:
  fixes v :: uint64
  shows "(ucast ((ucast ((v AND 0x7f) OR 0x80) :: byte) AND 0x7F) :: uint64) = take_bit 7 v"
  by (rule bit_word_eqI) (auto simp: bit_simps bit_x7f bit_x80)

lemma varint_low_byte:
  fixes v :: uint64
  assumes "v < 0x80"
  shows "(ucast v :: byte) < 0x80" and "(ucast ((ucast v :: byte) AND 0x7F) :: uint64) = v"
proof -
  from assms have small: "unat v < 2 ^ 7"
    by (simp add: word_less_nat_alt)
  from assms have "v < 2 ^ 7"
    by simp
  then have "v AND mask 7 = v"
    by (rule less_mask_eq)
  then have v: "take_bit 7 v = v"
    by (simp add: take_bit_eq_mask)
  have u: "unat (ucast v :: byte) = unat v"
    using small by (simp add: unsigned_ucast_eq take_bit_nat_eq_self)
  show "(ucast v :: byte) < 0x80"
    using small by (simp add: word_less_nat_alt u)
  have "(ucast ((ucast v :: byte) AND 0x7F) :: uint64) = take_bit 7 v"
    by (rule bit_word_eqI) (auto simp: bit_simps bit_x7f)
  with v show "(ucast ((ucast v :: byte) AND 0x7F) :: uint64) = v"
    by simp
qed

lemma take_drop_bit7:
  fixes v :: uint64
  shows "take_bit 7 v OR push_bit 7 (drop_bit 7 v) = v"
proof (rule bit_word_eqI)
  fix n
  assume "n < LENGTH(64)"
  then show "bit (take_bit 7 v OR push_bit 7 (drop_bit 7 v)) n = bit v n"
    by (cases "n < 7") (simp_all add: bit_simps not_less)
qed

lemma push_bit_split7:
  fixes v :: uint64
  shows "push_bit s (take_bit 7 v) OR push_bit (s + 7) (drop_bit 7 v) = push_bit s v"
proof -
  have "push_bit (s + 7) (drop_bit 7 v) = push_bit s (push_bit 7 (drop_bit 7 v))"
    by (simp add: add.commute)
  then have "push_bit s (take_bit 7 v) OR push_bit (s + 7) (drop_bit 7 v)
      = push_bit s (take_bit 7 v OR push_bit 7 (drop_bit 7 v))"
    by simp
  then show ?thesis
    by (simp add: take_drop_bit7)
qed

lemma decodeVarint_wire:
  "shift < 64 \<Longrightarrow> unat v < 2 ^ (64 - shift) \<Longrightarrow>
     decodeVarint (A @ wire_varint v @ B) (int (length A)) shift acc
       = Inr (acc OR push_bit shift v, int (length A + length (wire_varint v)))"
proof (induction v arbitrary: A shift acc rule: wire_varint.induct)
  case (1 v)
  show ?case
  proof (cases "0x80 \<le> v")
    case True
    let ?b = "ucast ((v AND 0x7f) OR 0x80) :: byte"
    from True have wv: "wire_varint v = ?b # wire_varint (drop_bit 7 v)"
      by (subst wire_varint.simps) simp
    from True have big: "2 ^ 7 \<le> unat v"
      by (simp add: word_le_nat_alt)
    with "1.prems" have "(2::nat) ^ 7 < 2 ^ (64 - shift)"
      by linarith
    have sh: "shift + 7 < 64"
    proof (rule ccontr)
      assume "\<not> shift + 7 < 64"
      then have "64 - shift \<le> 7"
        by simp
      then have "(2::nat) ^ (64 - shift) \<le> 2 ^ 7"
        by (rule power_increasing) simp
      with \<open>(2::nat) ^ 7 < 2 ^ (64 - shift)\<close> show False
        by simp
    qed
    have "unat (drop_bit 7 v) = unat v div 2 ^ 7"
      by (simp add: drop_bit_eq_div unat_div)
    also have "\<dots> < 2 ^ (64 - (shift + 7))"
    proof -
      have "64 - shift = 7 + (64 - (shift + 7))"
        using sh by simp
      then have "(2::nat) ^ (64 - shift) = 2 ^ 7 * 2 ^ (64 - (shift + 7))"
        by (simp only: power_add)
      with "1.prems"(2) have "unat v < 2 ^ (64 - (shift + 7)) * 2 ^ 7"
        by (simp only: mult.commute)
      then show ?thesis
        by (rule less_mult_imp_div_less)
    qed
    finally have small: "unat (drop_bit 7 v) < 2 ^ (64 - (shift + 7))" .
    have IH: "decodeVarint ((A @ [?b]) @ wire_varint (drop_bit 7 v) @ B)
          (int (length (A @ [?b]))) (shift + 7) (acc OR push_bit shift (take_bit 7 v))
        = Inr ((acc OR push_bit shift (take_bit 7 v)) OR push_bit (shift + 7) (drop_bit 7 v),
               int (length (A @ [?b]) + length (wire_varint (drop_bit 7 v))))"
      using True sh small by (rule "1.IH")
    have res: "(acc OR push_bit shift (take_bit 7 v)) OR push_bit (shift + 7) (drop_bit 7 v)
        = acc OR push_bit shift v"
      by (simp add: or.assoc push_bit_split7)
    show ?thesis
      using "1.prems"(1) IH
      by (subst decodeVarint.simps)
        (simp add: wv index_append varint_high_byte varint_high_byte_payload Let_def res
          add.commute)
  next
    case False
    then have lt: "v < 0x80"
      by simp
    from False have wv: "wire_varint v = [ucast v]"
      by (subst wire_varint.simps) simp
    show ?thesis
      using "1.prems"(1)
      by (subst decodeVarint.simps)
        (simp add: wv index_append varint_low_byte [OF lt] Let_def)
  qed
qed

lemma decodeVarint_wire0:
  "decodeVarint (A @ wire_varint v @ B) (int (length A)) 0 0
     = Inr (v, int (length A + length (wire_varint v)))"
proof -
  have "unat v < 2 ^ (64 - 0)"
    using unsigned_less [of v, where 'a = nat] by simp
  then show ?thesis
    using decodeVarint_wire [of 0 v A B 0] by simp
qed

lemma decodeVarint_byte:
  assumes "b < 0x80"
  shows "decodeVarint (A @ b # B) (int (length A)) 0 0 = Inr (ucast b, int (length A) + 1)"
proof -
  have "b AND 0x7F = b"
    using assms less_mask_eq [of b 7] by (simp add: mask_eq_exp_minus_1)
  then show ?thesis
    using assms by (subst decodeVarint.simps) (simp add: index_append Let_def)
qed

lemma sint_of_nat_small: "n < 2 ^ 63 \<Longrightarrow> sint (of_nat n :: uint64) = int n"
  by (simp add: signed_of_nat signed_take_bit_int_eq_self)

lemma char_of_byte_of_char: "char_of (unat (of_char c :: byte)) = c"
proof -
  have "(of_char c :: byte) = of_nat (of_char c)"
    by (simp add: of_nat_of_char)
  then have "unat (of_char c :: byte) = take_bit 8 (of_char c :: nat)"
    by (simp add: unsigned_of_nat)
  then show ?thesis
    by (simp add: char_of_take_bit_eq)
qed

lemma string_of_bytes_inverse: "string_of_bytes (bytes_of_string s) = s"
  by (induction s) (simp_all add: string_of_bytes_def bytes_of_string_def char_of_byte_of_char)

lemma length_bytes_of_string: "length (bytes_of_string s) = length s"
  by (simp add: bytes_of_string_def)

lemma slice_middle:
  "length X = n \<Longrightarrow> slice (A @ X @ B) (int (length A)) (int (length A + n)) = Inr X"
  by (simp add: slice_def)

lemma readString_wire:
  assumes "int (length (A @ wire_varint (of_nat (length s)) @ bytes_of_string s @ B)) \<le> maxInt"
  shows "readString (A @ wire_varint (of_nat (length s)) @ bytes_of_string s @ B) (int (length A))
       = Inr (s, int (length A + length (wire_varint (of_nat (length s))) + length s))"
proof -
  let ?wv = "wire_varint (of_nat (length s) :: uint64)"
  let ?d = "A @ ?wv @ bytes_of_string s @ B"
  from assms have small: "length s < 2 ^ 63"
    by (simp add: maxInt_def length_bytes_of_string)
  have dec: "decodeVarint ?d (int (length A)) 0 0
      = Inr (of_nat (length s), int (length A + length ?wv))"
    by (rule decodeVarint_wire0)
  have len: "sint (of_nat (length s) :: uint64) = int (length s)"
    using small by (rule sint_of_nat_small)
  have ok: "\<not> negative_as_int (int (length A + length ?wv) + int (length s))"
    using assms by (simp add: negative_as_int_def length_bytes_of_string)
  have sl: "slice ((A @ ?wv) @ bytes_of_string s @ B) (int (length (A @ ?wv)))
       (int (length (A @ ?wv) + length s)) = Inr (bytes_of_string s)"
    by (rule slice_middle) (rule length_bytes_of_string)
  then have sl': "slice ?d (int (length A + length ?wv))
       (int (length A + length ?wv) + int (length s)) = Inr (bytes_of_string s)"
    by simp
  show ?thesis
    unfolding readString_def dec sum.case prod.case Let_def len
    using ok sl' by (simp add: string_of_bytes_inverse length_bytes_of_string)
qed

lemma tag_facts:
  "fieldNum_of 0xa = 1" "wireType_of 0xa = 2"
  "fieldNum_of 0x12 = 2" "wireType_of 0x12 = 2"
  "fieldNum_of 0x1a = 3" "wireType_of 0x1a = 2"
  "fieldNum_of 0x22 = 4" "wireType_of 0x22 = 2"
  "fieldNum_of 0x2a = 5" "wireType_of 0x2a = 2"
  "fieldNum_of 0x10 = 2" "wireType_of 0x10 = 0"
  by (simp_all add: fieldNum_of_def wireType_of_def)

text \<open>Reading the tag byte and the string of a length-delimited field.\<close>

lemma read_string_field:
  assumes tag: "tag < 0x80"
    and total: "int (length (A @ wire_string tag s @ B)) \<le> maxInt"
  shows "decodeVarint (A @ wire_string tag s @ B) (int (length A)) 0 0
           = Inr (ucast tag, int (length A) + 1)"
    and "readString (A @ wire_string tag s @ B) (int (length A) + 1)
           = Inr (s, int (length A + length (wire_string tag s)))"
proof -
  let ?wv = "wire_varint (of_nat (length s) :: uint64)"
  have d: "A @ wire_string tag s @ B = A @ tag # (?wv @ bytes_of_string s @ B)"
    by (simp add: wire_string_def)
  show "decodeVarint (A @ wire_string tag s @ B) (int (length A)) 0 0
           = Inr (ucast tag, int (length A) + 1)"
    unfolding d using tag by (rule decodeVarint_byte)
  have d': "A @ wire_string tag s @ B = (A @ [tag]) @ ?wv @ bytes_of_string s @ B"
    by (simp add: wire_string_def)
  have "readString ((A @ [tag]) @ ?wv @ bytes_of_string s @ B) (int (length (A @ [tag])))
      = Inr (s, int (length (A @ [tag]) + length ?wv + length s))"
    using total unfolding d' by (rule readString_wire)
  then show "readString (A @ wire_string tag s @ B) (int (length A) + 1)
           = Inr (s, int (length A + length (wire_string tag s)))"
    unfolding d' by (simp add: wire_string_def length_bytes_of_string add.commute add.left_commute)
qed

lemma wire_string_nonempty_cases:
  "(s = [] \<and> wire_string_nonempty tag s = []) \<or>
   (s \<noteq> [] \<and> wire_string_nonempty tag s = wire_string tag s)"
  by (simp add: wire_string_nonempty_def)

lemma before_wire_string: "int (length A) < int (length (A @ wire_string tag s @ B))"
  by (simp add: wire_string_def)

lemma FungibleTokenPacketData_loop_step:
  "iNdEx < int (length dAtA) \<Longrightarrow>
   FungibleTokenPacketData_Unmarshal_step dAtA iNdEx m = Inr (iNdEx', m') \<Longrightarrow>
   FungibleTokenPacketData_Unmarshal_loop dAtA iNdEx m = FungibleTokenPacketData_Unmarshal_loop dAtA iNdEx' m'"
  by (subst FungibleTokenPacketData_Unmarshal_loop.simps) simp

lemma FungibleTokenPacketData_loop_end: "FungibleTokenPacketData_Unmarshal_loop dAtA (int (length dAtA)) m = Inr m"
  by (subst FungibleTokenPacketData_Unmarshal_loop.simps) simp

lemma FungibleTokenPacketData_step_Denom:
  assumes "int (length (A @ wire_string 0xa s @ B)) \<le> maxInt"
  shows "FungibleTokenPacketData_Unmarshal_step (A @ wire_string 0xa s @ B) (int (length A)) m
       = Inr (int (length A + length (wire_string 0xa s)), m\<lparr>Denom := s\<rparr>)"
  unfolding FungibleTokenPacketData_Unmarshal_step_def Let_def
    read_string_field [OF _ assms, simplified] sum.case prod.case
  by (simp add: tag_facts)

lemma FungibleTokenPacketData_step_Amount:
  assumes "int (length (A @ wire_string 0x12 s @ B)) \<le> maxInt"
  shows "FungibleTokenPacketData_Unmarshal_step (A @ wire_string 0x12 s @ B) (int (length A)) m
       = Inr (int (length A + length (wire_string 0x12 s)), m\<lparr>Amount := s\<rparr>)"
  unfolding FungibleTokenPacketData_Unmarshal_step_def Let_def
    read_string_field [OF _ assms, simplified] sum.case prod.case
  by (simp add: tag_facts)

lemma FungibleTokenPacketData_step_Sender:
  assumes "int (length (A @ wire_string 0x1a s @ B)) \<le> maxInt"
  shows "FungibleTokenPacketData_Unmarshal_step (A @ wire_string 0x1a s @ B) (int (length A)) m
       = Inr (int (length A + length (wire_string 0x1a s)), m\<lparr>Sender := s\<rparr>)"
  unfolding FungibleTokenPacketData_Unmarshal_step_def Let_def
    read_string_field [OF _ assms, simplified] sum.case prod.case
  by (simp add: tag_facts)

lemma FungibleTokenPacketData_step_Receiver:
  assumes "int (length (A @ wire_string 0x22 s @ B)) \<le> maxInt"
  shows "FungibleTokenPacketData_Unmarshal_step (A @ wire_string 0x22 s @ B) (int (length A)) m
       = Inr (int (length A + length (wire_string 0x22 s)), m\<lparr>Receiver := s\<rparr>)"
  unfolding FungibleTokenPacketData_Unmarshal_step_def Let_def
    read_string_field [OF _ assms, simplified] sum.case prod.case
  by (simp add: tag_facts)

lemma FungibleTokenPacketData_step_Memo:
  assumes "int (length (A @ wire_string 0x2a s @ B)) \<le> maxInt"
  shows "FungibleTokenPacketData_Unmarshal_step (A @ wire_string 0x2a s @ B) (int (length A)) m
       = Inr (int (length A + length (wire_string 0x2a s)), m\<lparr>Memo := s\<rparr>)"
  unfolding FungibleTokenPacketData_Unmarshal_step_def Let_def
    read_string_field [OF _ assms, simplified] sum.case prod.case
  by (simp add: tag_facts)

lemma FungibleTokenPacketData_field_Denom:
  assumes "int (length (A @ wire_string_nonempty 0xa s @ B)) \<le> maxInt" and "Denom m = []"
  shows "FungibleTokenPacketData_Unmarshal_loop (A @ wire_string_nonempty 0xa s @ B) (int (length A)) m
       = FungibleTokenPacketData_Unmarshal_loop (A @ wire_string_nonempty 0xa s @ B)
           (int (length A + length (wire_string_nonempty 0xa s))) (m\<lparr>Denom := s\<rparr>)"
  using wire_string_nonempty_cases [of s "0xa"]
proof (elim disjE conjE)
  assume "s = []" "wire_string_nonempty 0xa s = []"
  moreover from assms(2) have "m\<lparr>Denom := []\<rparr> = m"
    by (cases m) simp
  ultimately show ?thesis
    by simp
next
  assume w: "wire_string_nonempty 0xa s = wire_string 0xa s"
  show ?thesis
    unfolding w using before_wire_string
  proof (rule FungibleTokenPacketData_loop_step)
    show "FungibleTokenPacketData_Unmarshal_step (A @ wire_string 0xa s @ B) (int (length A)) m
        = Inr (int (length A + length (wire_string 0xa s)), m\<lparr>Denom := s\<rparr>)"
      using assms(1) unfolding w by (rule FungibleTokenPacketData_step_Denom)
  qed
qed

lemma FungibleTokenPacketData_field_Amount:
  assumes "int (length (A @ wire_string_nonempty 0x12 s @ B)) \<le> maxInt" and "Amount m = []"
  shows "FungibleTokenPacketData_Unmarshal_loop (A @ wire_string_nonempty 0x12 s @ B) (int (length A)) m
       = FungibleTokenPacketData_Unmarshal_loop (A @ wire_string_nonempty 0x12 s @ B)
           (int (length A + length (wire_string_nonempty 0x12 s))) (m\<lparr>Amount := s\<rparr>)"
  using wire_string_nonempty_cases [of s "0x12"]
proof (elim disjE conjE)
  assume "s = []" "wire_string_nonempty 0x12 s = []"
  moreover from assms(2) have "m\<lparr>Amount := []\<rparr> = m"
    by (cases m) simp
  ultimately show ?thesis
    by simp
next
  assume w: "wire_string_nonempty 0x12 s = wire_string 0x12 s"
  show ?thesis
    unfolding w using before_wire_string
  proof (rule FungibleTokenPacketData_loop_step)
    show "FungibleTokenPacketData_Unmarshal_step (A @ wire_string 0x12 s @ B) (int (length A)) m
        = Inr (int (length A + length (wire_string 0x12 s)), m\<lparr>Amount := s\<rparr>)"
      using assms(1) unfolding w by (rule FungibleTokenPacketData_step_Amount)
  qed
qed

lemma FungibleTokenPacketData_field_Sender:
  assumes "int (length (A @ wire_string_nonempty 0x1a s @ B)) \<le> maxInt" and "Sender m = []"
  shows "FungibleTokenPacketData_Unmarshal_loop (A @ wire_string_nonempty 0x1a s @ B) (int (length A)) m
       = FungibleTokenPacketData_Unmarshal_loop (A @ wire_string_nonempty 0x1a s @ B)
           (int (length A + length (wire_string_nonempty 0x1a s))) (m\<lparr>Sender := s\<rparr>)"
  using wire_string_nonempty_cases [of s "0x1a"]
proof (elim disjE conjE)
  assume "s = []" "wire_string_nonempty 0x1a s = []"
  moreover from assms(2) have "m\<lparr>Sender := []\<rparr> = m"
    by (cases m) simp
  ultimately show ?thesis
    by simp
next
  assume w: "wire_string_nonempty 0x1a s = wire_string 0x1a s"
  show ?thesis
    unfolding w using before_wire_string
  proof (rule FungibleTokenPacketData_loop_step)
    show "FungibleTokenPacketData_Unmarshal_step (A @ wire_string 0x1a s @ B) (int (length A)) m
        = Inr (int (length A + length (wire_string 0x1a s)), m\<lparr>Sender := s\<rparr>)"
      using assms(1) unfolding w by (rule FungibleTokenPacketData_step_Sender)
  qed
qed

lemma FungibleTokenPacketData_field_Receiver:
  assumes "int (length (A @ wire_string_nonempty 0x22 s @ B)) \<le> maxInt" and "Receiver m = []"
  shows "FungibleTokenPacketData_Unmarshal_loop (A @ wire_string_nonempty 0x22 s @ B) (int (length A)) m
       = FungibleTokenPacketData_Unmarshal_loop (A @ wire_string_nonempty 0x22 s @ B)
           (int (length A + length (wire_string_nonempty 0x22 s))) (m\<lparr>Receiver := s\<rparr>)"
  using wire_string_nonempty_cases [of s "0x22"]
proof (elim disjE conjE)
  assume "s = []" "wire_string_nonempty 0x22 s = []"
  moreover from assms(2) have "m\<lparr>Receiver := []\<rparr> = m"
    by (cases m) simp
  ultimately show ?thesis
    by simp
next
  assume w: "wire_string_nonempty 0x22 s = wire_string 0x22 s"
  show ?thesis
    unfolding w using before_wire_string
  proof (rule FungibleTokenPacketData_loop_step)
    show "FungibleTokenPacketData_Unmarshal_step (A @ wire_string 0x22 s @ B) (int (length A)) m
        = Inr (int (length A + length (wire_string 0x22 s)), m\<lparr>Receiver := s\<rparr>)"
      using assms(1) unfolding w by (rule FungibleTokenPacketData_step_Receiver)
  qed
qed

lemma FungibleTokenPacketData_field_Memo:
  assumes "int (length (A @ wire_string_nonempty 0x2a s @ B)) \<le> maxInt" and "Memo m = []"
  shows "FungibleTokenPacketData_Unmarshal_loop (A @ wire_string_nonempty 0x2a s @ B) (int (length A)) m
       = FungibleTokenPacketData_Unmarshal_loop (A @ wire_string_nonempty 0x2a s @ B)
           (int (length A + length (wire_string_nonempty 0x2a s))) (m\<lparr>Memo := s\<rparr>)"
  using wire_string_nonempty_cases [of s "0x2a"]
proof (elim disjE conjE)
  assume "s = []" "wire_string_nonempty 0x2a s = []"
  moreover from assms(2) have "m\<lparr>Memo := []\<rparr> = m"
    by (cases m) simp
  ultimately show ?thesis
    by simp
next
  assume w: "wire_string_nonempty 0x2a s = wire_string 0x2a s"
  show ?thesis
    unfolding w using before_wire_string
  proof (rule FungibleTokenPacketData_loop_step)
    show "FungibleTokenPacketData_Unmarshal_step (A @ wire_string 0x2a s @ B) (int (length A)) m
        = Inr (int (length A + length (wire_string 0x2a s)), m\<lparr>Memo := s\<rparr>)"
      using assms(1) unfolding w by (rule FungibleTokenPacketData_step_Memo)
  qed
qed

lemma FungibleTokenPacketData_Unmarshal_wire:
  assumes "int (length (wire_FungibleTokenPacketData m)) \<le> maxInt"
  shows "FungibleTokenPacketData_Unmarshal FungibleTokenPacketData_zero
           (wire_FungibleTokenPacketData m) = Inr m"
proof -
  let ?w1 = "wire_string_nonempty 0xa (Denom m)"
  let ?w2 = "wire_string_nonempty 0x12 (Amount m)"
  let ?w3 = "wire_string_nonempty 0x1a (Sender m)"
  let ?w4 = "wire_string_nonempty 0x22 (Receiver m)"
  let ?w5 = "wire_string_nonempty 0x2a (Memo m)"
  let ?d = "?w1 @ ?w2 @ ?w3 @ ?w4 @ ?w5"
  let ?m0 = "FungibleTokenPacketData_zero"
  let ?m1 = "?m0\<lparr>Denom := Denom m\<rparr>"
  let ?m2 = "?m1\<lparr>Amount := Amount m\<rparr>"
  let ?m3 = "?m2\<lparr>Sender := Sender m\<rparr>"
  let ?m4 = "?m3\<lparr>Receiver := Receiver m\<rparr>"
  let ?m5 = "?m4\<lparr>Memo := Memo m\<rparr>"
  have total: "int (length ?d) \<le> maxInt"
    using assms by (simp add: wire_FungibleTokenPacketData_def)
  have "FungibleTokenPacketData_Unmarshal_loop ?d 0 ?m0
      = FungibleTokenPacketData_Unmarshal_loop ?d (int (length ?w1)) ?m1"
    using FungibleTokenPacketData_field_Denom [of "[]" "Denom m" "?w2 @ ?w3 @ ?w4 @ ?w5" ?m0] total
    by (simp add: FungibleTokenPacketData_zero_def add.assoc)
  also have "\<dots> = FungibleTokenPacketData_Unmarshal_loop ?d (int (length (?w1 @ ?w2))) ?m2"
    using FungibleTokenPacketData_field_Amount [of ?w1 "Amount m" "?w3 @ ?w4 @ ?w5" ?m1] total
    by (simp add: FungibleTokenPacketData_zero_def add.assoc)
  also have "\<dots> = FungibleTokenPacketData_Unmarshal_loop ?d (int (length (?w1 @ ?w2 @ ?w3))) ?m3"
    using FungibleTokenPacketData_field_Sender [of "?w1 @ ?w2" "Sender m" "?w4 @ ?w5" ?m2] total
    by (simp add: FungibleTokenPacketData_zero_def add.assoc)
  also have "\<dots> = FungibleTokenPacketData_Unmarshal_loop ?d
        (int (length (?w1 @ ?w2 @ ?w3 @ ?w4))) ?m4"
    using FungibleTokenPacketData_field_Receiver [of "?w1 @ ?w2 @ ?w3" "Receiver m" ?w5 ?m3] total
    by (simp add: FungibleTokenPacketData_zero_def add.assoc)
  also have "\<dots> = FungibleTokenPacketData_Unmarshal_loop ?d (int (length ?d)) ?m5"
    using FungibleTokenPacketData_field_Memo [of "?w1 @ ?w2 @ ?w3 @ ?w4" "Memo m" "[]" ?m4] total
    by (simp add: FungibleTokenPacketData_zero_def add.assoc)
  also have "\<dots> = Inr ?m5"
    by (rule FungibleTokenPacketData_loop_end)
  also have "?m5 = m"
    by (cases m) (simp add: FungibleTokenPacketData_zero_def)
  finally show ?thesis
    by (simp add: FungibleTokenPacketData_Unmarshal_def wire_FungibleTokenPacketData_def)
qed

lemma Token_loop_step:
  "iNdEx < int (length dAtA) \<Longrightarrow>
   Token_Unmarshal_step dAtA iNdEx m = Inr (iNdEx', m') \<Longrightarrow>
   Token_Unmarshal_loop dAtA iNdEx m = Token_Unmarshal_loop dAtA iNdEx' m'"
  by (subst Token_Unmarshal_loop.simps) simp

lemma Token_loop_end: "Token_Unmarshal_loop dAtA (int (length dAtA)) m = Inr m"
  by (subst Token_Unmarshal_loop.simps) simp

lemma Token_step_TokenDenom:
  assumes "int (length (A @ wire_string 0xa s @ B)) \<le> maxInt"
  shows "Token_Unmarshal_step (A @ wire_string 0xa s @ B) (int (length A)) m
       = Inr (int (length A + length (wire_string 0xa s)), m\<lparr>TokenDenom := s\<rparr>)"
  unfolding Token_Unmarshal_step_def Let_def
    read_string_field [OF _ assms, simplified] sum.case prod.case
  by (simp add: tag_facts)

lemma Token_field_TokenDenom:
  assumes "int (length (A @ wire_string_nonempty 0xa s @ B)) \<le> maxInt" and "TokenDenom m = []"
  shows "Token_Unmarshal_loop (A @ wire_string_nonempty 0xa s @ B) (int (length A)) m
       = Token_Unmarshal_loop (A @ wire_string_nonempty 0xa s @ B)
           (int (length A + length (wire_string_nonempty 0xa s))) (m\<lparr>TokenDenom := s\<rparr>)"
  using wire_string_nonempty_cases [of s "0xa"]
proof (elim disjE conjE)
  assume "s = []" "wire_string_nonempty 0xa s = []"
  moreover from assms(2) have "m\<lparr>TokenDenom := []\<rparr> = m"
    by (cases m) simp
  ultimately show ?thesis
    by simp
next
  assume w: "wire_string_nonempty 0xa s = wire_string 0xa s"
  show ?thesis
    unfolding w using before_wire_string
  proof (rule Token_loop_step)
    show "Token_Unmarshal_step (A @ wire_string 0xa s @ B) (int (length A)) m
        = Inr (int (length A + length (wire_string 0xa s)), m\<lparr>TokenDenom := s\<rparr>)"
      using assms(1) unfolding w by (rule Token_step_TokenDenom)
  qed
qed

lemma Token_step_Trace:
  assumes "int (length (A @ wire_string 0x1a s @ B)) \<le> maxInt"
  shows "Token_Unmarshal_step (A @ wire_string 0x1a s @ B) (int (length A)) m
       = Inr (int (length A + length (wire_string 0x1a s)), m\<lparr>Trace := Trace m @ [s]\<rparr>)"
  unfolding Token_Unmarshal_step_def Let_def
    read_string_field [OF _ assms, simplified] sum.case prod.case
  by (simp add: tag_facts)

lemma Token_step_Amount:
  "Token_Unmarshal_step (A @ 0x10 # wire_varint a @ B) (int (length A)) m
     = Inr (int (length A + length (0x10 # wire_varint a)), m\<lparr>TokenAmount := a\<rparr>)"
proof -
  have tag: "decodeVarint (A @ 0x10 # wire_varint a @ B) (int (length A)) 0 0
      = Inr (ucast (0x10 :: byte), int (length A) + 1)"
    by (rule decodeVarint_byte) simp
  have "decodeVarint ((A @ [0x10]) @ wire_varint a @ B) (int (length (A @ [0x10]))) 0 0
      = Inr (a, int (length (A @ [0x10]) + length (wire_varint a)))"
    by (rule decodeVarint_wire0)
  then have amount: "decodeVarint (A @ 0x10 # wire_varint a @ B) (int (length A) + 1) 0 0
      = Inr (a, int (length A + length (0x10 # wire_varint a)))"
    by (simp add: add.commute add.left_commute)
  show ?thesis
    unfolding Token_Unmarshal_step_def Let_def tag sum.case prod.case
    using amount by (simp add: tag_facts)
qed

lemma Token_field_Amount:
  assumes "TokenAmount m = 0"
  shows "Token_Unmarshal_loop (A @ wire_amount a @ B) (int (length A)) m
       = Token_Unmarshal_loop (A @ wire_amount a @ B)
           (int (length A + length (wire_amount a))) (m\<lparr>TokenAmount := a\<rparr>)"
proof (cases "a = 0")
  case True
  moreover from assms have "m\<lparr>TokenAmount := 0\<rparr> = m"
    by (cases m) simp
  ultimately show ?thesis
    by (simp add: wire_amount_def)
next
  case False
  then have w: "wire_amount a = 0x10 # wire_varint a"
    by (simp add: wire_amount_def)
  have "int (length A) < int (length (A @ (0x10 # wire_varint a) @ B))"
    by simp
  then show ?thesis
    unfolding w using Token_step_Amount [of A a B m]
    by (intro Token_loop_step) simp_all
qed

lemma Token_field_Trace:
  assumes "int (length (A @ concat (map (wire_string 0x1a) ss) @ B)) \<le> maxInt"
  shows "Token_Unmarshal_loop (A @ concat (map (wire_string 0x1a) ss) @ B) (int (length A)) m
       = Token_Unmarshal_loop (A @ concat (map (wire_string 0x1a) ss) @ B)
           (int (length A + length (concat (map (wire_string 0x1a) ss))))
           (m\<lparr>Trace := Trace m @ ss\<rparr>)"
  using assms
proof (induction ss arbitrary: A m)
  case Nil
  have "m\<lparr>Trace := Trace m\<rparr> = m"
    by (cases m) simp
  then show ?case
    by simp
next
  case (Cons s ss)
  let ?rest = "concat (map (wire_string 0x1a) ss)"
  let ?d = "A @ wire_string 0x1a s @ ?rest @ B"
  let ?m1 = "m\<lparr>Trace := Trace m @ [s]\<rparr>"
  from Cons.prems have total: "int (length ?d) \<le> maxInt"
    by simp
  have "Token_Unmarshal_step ?d (int (length A)) m
      = Inr (int (length A + length (wire_string 0x1a s)), ?m1)"
    using total by (rule Token_step_Trace)
  with before_wire_string
  have "Token_Unmarshal_loop ?d (int (length A)) m
      = Token_Unmarshal_loop ?d (int (length A + length (wire_string 0x1a s))) ?m1"
    by (rule Token_loop_step)
  also have "\<dots> = Token_Unmarshal_loop ((A @ wire_string 0x1a s) @ ?rest @ B)
      (int (length (A @ wire_string 0x1a s))) ?m1"
    by simp
  also have "\<dots> = Token_Unmarshal_loop ((A @ wire_string 0x1a s) @ ?rest @ B)
      (int (length (A @ wire_string 0x1a s) + length ?rest)) (?m1\<lparr>Trace := Trace ?m1 @ ss\<rparr>)"
    using total by (intro Cons.IH) simp
  finally show ?case
    by (simp add: add.assoc)
qed

lemma Token_Unmarshal_wire:
  assumes "int (length (wire_Token m)) \<le> maxInt"
  shows "Token_Unmarshal Token_zero (wire_Token m) = Inr m"
proof -
  let ?w1 = "wire_string_nonempty 0xa (TokenDenom m)"
  let ?w2 = "wire_amount (TokenAmount m)"
  let ?w3 = "concat (map (wire_string 0x1a) (Trace m))"
  let ?d = "?w1 @ ?w2 @ ?w3"
  let ?m0 = "Token_zero"
  let ?m1 = "?m0\<lparr>TokenDenom := TokenDenom m\<rparr>"
  let ?m2 = "?m1\<lparr>TokenAmount := TokenAmount m\<rparr>"
  let ?m3 = "?m2\<lparr>Trace := Trace ?m2 @ Trace m\<rparr>"
  have total: "int (length ?d) \<le> maxInt"
    using assms by (simp add: wire_Token_def)
  have "Token_Unmarshal_loop ?d 0 ?m0 = Token_Unmarshal_loop ?d (int (length ?w1)) ?m1"
    using Token_field_TokenDenom [of "[]" "TokenDenom m" "?w2 @ ?w3" ?m0] total
    by (simp add: Token_zero_def add.assoc)
  also have "\<dots> = Token_Unmarshal_loop ?d (int (length (?w1 @ ?w2))) ?m2"
    using Token_field_Amount [of ?m1 ?w1 "TokenAmount m" ?w3]
    by (simp add: Token_zero_def add.assoc)
  also have "\<dots> = Token_Unmarshal_loop ?d (int (length ?d)) ?m3"
    using Token_field_Trace [of "?w1 @ ?w2" "Trace m" "[]" ?m2] total
    by (simp add: Token_zero_def add.assoc)
  also have "\<dots> = Inr ?m3"
    by (rule Token_loop_end)
  also have "?m3 = m"
    by (cases m) (simp add: Token_zero_def)
  finally show ?thesis
    by (simp add: Token_Unmarshal_def wire_Token_def)
qed

lemma FungibleTokenPacketDataV2_loop_step:
  "iNdEx < int (length dAtA) \<Longrightarrow>
   FungibleTokenPacketDataV2_Unmarshal_step dAtA iNdEx m = Inr (iNdEx', m') \<Longrightarrow>
   FungibleTokenPacketDataV2_Unmarshal_loop dAtA iNdEx m = FungibleTokenPacketDataV2_Unmarshal_loop dAtA iNdEx' m'"
  by (subst FungibleTokenPacketDataV2_Unmarshal_loop.simps) simp

lemma FungibleTokenPacketDataV2_loop_end: "FungibleTokenPacketDataV2_Unmarshal_loop dAtA (int (length dAtA)) m = Inr m"
  by (subst FungibleTokenPacketDataV2_Unmarshal_loop.simps) simp

lemma FungibleTokenPacketDataV2_step_SenderV2:
  assumes "int (length (A @ wire_string 0x12 s @ B)) \<le> maxInt"
  shows "FungibleTokenPacketDataV2_Unmarshal_step (A @ wire_string 0x12 s @ B) (int (length A)) m
       = Inr (int (length A + length (wire_string 0x12 s)), m\<lparr>SenderV2 := s\<rparr>)"
  unfolding FungibleTokenPacketDataV2_Unmarshal_step_def Let_def
    read_string_field [OF _ assms, simplified] sum.case prod.case
  by (simp add: tag_facts)

lemma FungibleTokenPacketDataV2_step_ReceiverV2:
  assumes "int (length (A @ wire_string 0x1a s @ B)) \<le> maxInt"
  shows "FungibleTokenPacketDataV2_Unmarshal_step (A @ wire_string 0x1a s @ B) (int (length A)) m
       = Inr (int (length A + length (wire_string 0x1a s)), m\<lparr>ReceiverV2 := s\<rparr>)"
  unfolding FungibleTokenPacketDataV2_Unmarshal_step_def Let_def
    read_string_field [OF _ assms, simplified] sum.case prod.case
  by (simp add: tag_facts)

lemma FungibleTokenPacketDataV2_step_MemoV2:
  assumes "int (length (A @ wire_string 0x22 s @ B)) \<le> maxInt"
  shows "FungibleTokenPacketDataV2_Unmarshal_step (A @ wire_string 0x22 s @ B) (int (length A)) m
       = Inr (int (length A + length (wire_string 0x22 s)), m\<lparr>MemoV2 := s\<rparr>)"
  unfolding FungibleTokenPacketDataV2_Unmarshal_step_def Let_def
    read_string_field [OF _ assms, simplified] sum.case prod.case
  by (simp add: tag_facts)

lemma FungibleTokenPacketDataV2_field_SenderV2:
  assumes "int (length (A @ wire_string_nonempty 0x12 s @ B)) \<le> maxInt" and "SenderV2 m = []"
  shows "FungibleTokenPacketDataV2_Unmarshal_loop (A @ wire_string_nonempty 0x12 s @ B) (int (length A)) m
       = FungibleTokenPacketDataV2_Unmarshal_loop (A @ wire_string_nonempty 0x12 s @ B)
           (int (length A + length (wire_string_nonempty 0x12 s))) (m\<lparr>SenderV2 := s\<rparr>)"
  using wire_string_nonempty_cases [of s "0x12"]
proof (elim disjE conjE)
  assume "s = []" "wire_string_nonempty 0x12 s = []"
  moreover from assms(2) have "m\<lparr>SenderV2 := []\<rparr> = m"
    by (cases m) simp
  ultimately show ?thesis
    by simp
next
  assume w: "wire_string_nonempty 0x12 s = wire_string 0x12 s"
  show ?thesis
    unfolding w using before_wire_string
  proof (rule FungibleTokenPacketDataV2_loop_step)
    show "FungibleTokenPacketDataV2_Unmarshal_step (A @ wire_string 0x12 s @ B) (int (length A)) m
        = Inr (int (length A + length (wire_string 0x12 s)), m\<lparr>SenderV2 := s\<rparr>)"
      using assms(1) unfolding w by (rule FungibleTokenPacketDataV2_step_SenderV2)
  qed
qed

lemma FungibleTokenPacketDataV2_field_ReceiverV2:
  assumes "int (length (A @ wire_string_nonempty 0x1a s @ B)) \<le> maxInt" and "ReceiverV2 m = []"
  shows "FungibleTokenPacketDataV2_Unmarshal_loop (A @ wire_string_nonempty 0x1a s @ B) (int (length A)) m
       = FungibleTokenPacketDataV2_Unmarshal_loop (A @ wire_string_nonempty 0x1a s @ B)
           (int (length A + length (wire_string_nonempty 0x1a s))) (m\<lparr>ReceiverV2 := s\<rparr>)"
  using wire_string_nonempty_cases [of s "0x1a"]
proof (elim disjE conjE)
  assume "s = []" "wire_string_nonempty 0x1a s = []"
  moreover from assms(2) have "m\<lparr>ReceiverV2 := []\<rparr> = m"
    by (cases m) simp
  ultimately show ?thesis
    by simp
next
  assume w: "wire_string_nonempty 0x1a s = wire_string 0x1a s"
  show ?thesis
    unfolding w using before_wire_string
  proof (rule FungibleTokenPacketDataV2_loop_step)
    show "FungibleTokenPacketDataV2_Unmarshal_step (A @ wire_string 0x1a s @ B) (int (length A)) m
        = Inr (int (length A + length (wire_string 0x1a s)), m\<lparr>ReceiverV2 := s\<rparr>)"
      using assms(1) unfolding w by (rule FungibleTokenPacketDataV2_step_ReceiverV2)
  qed
qed

lemma FungibleTokenPacketDataV2_field_MemoV2:
  assumes "int (length (A @ wire_string_nonempty 0x22 s @ B)) \<le> maxInt" and "MemoV2 m = []"
  shows "FungibleTokenPacketDataV2_Unmarshal_loop (A @ wire_string_nonempty 0x22 s @ B) (int (length A)) m
       = FungibleTokenPacketDataV2_Unmarshal_loop (A @ wire_string_nonempty 0x22 s @ B)
           (int (length A + length (wire_string_nonempty 0x22 s))) (m\<lparr>MemoV2 := s\<rparr>)"
  using wire_string_nonempty_cases [of s "0x22"]
proof (elim disjE conjE)
  assume "s = []" "wire_string_nonempty 0x22 s = []"
  moreover from assms(2) have "m\<lparr>MemoV2 := []\<rparr> = m"
    by (cases m) simp
  ultimately show ?thesis
    by simp
next
  assume w: "wire_string_nonempty 0x22 s = wire_string 0x22 s"
  show ?thesis
    unfolding w using before_wire_string
  proof (rule FungibleTokenPacketDataV2_loop_step)
    show "FungibleTokenPacketDataV2_Unmarshal_step (A @ wire_string 0x22 s @ B) (int (length A)) m
        = Inr (int (length A + length (wire_string 0x22 s)), m\<lparr>MemoV2 := s\<rparr>)"
      using assms(1) unfolding w by (rule FungibleTokenPacketDataV2_step_MemoV2)
  qed
qed

lemma readToken_wire:
  assumes "int (length (A @ wire_token_field t @ B)) \<le> maxInt"
  shows "decodeVarint (A @ wire_token_field t @ B) (int (length A)) 0 0
           = Inr (ucast (0xa :: byte), int (length A) + 1)"
    and "readToken (A @ wire_token_field t @ B) (int (length A) + 1)
           = Inr (t, int (length A + length (wire_token_field t)))"
proof -
  let ?wt = "wire_Token t"
  let ?wv = "wire_varint (of_nat (length ?wt) :: uint64)"
  let ?d = "A @ wire_token_field t @ B"
  have d: "?d = A @ 0xa # (?wv @ ?wt @ B)" and d': "?d = (A @ [0xa]) @ ?wv @ ?wt @ B"
    by (simp_all add: wire_token_field_def)
  show "decodeVarint ?d (int (length A)) 0 0 = Inr (ucast (0xa :: byte), int (length A) + 1)"
    unfolding d by (rule decodeVarint_byte) simp
  from assms have small: "int (length ?wt) \<le> maxInt"
    by (simp add: wire_token_field_def)
  then have "length ?wt < 2 ^ 63"
    by (simp add: maxInt_def)
  then have len: "sint (of_nat (length ?wt) :: uint64) = int (length ?wt)"
    by (rule sint_of_nat_small)
  have "decodeVarint ((A @ [0xa]) @ ?wv @ ?wt @ B) (int (length (A @ [0xa]))) 0 0
      = Inr (of_nat (length ?wt), int (length (A @ [0xa]) + length ?wv))"
    by (rule decodeVarint_wire0)
  then have dec: "decodeVarint ?d (int (length A) + 1) 0 0
      = Inr (of_nat (length ?wt), int (length A + 1 + length ?wv))"
    unfolding d' by (simp add: add.commute add.left_commute)
  have ok: "\<not> negative_as_int (int (length A + 1 + length ?wv) + int (length ?wt))"
    using assms by (simp add: negative_as_int_def wire_token_field_def)
  have "slice ((A @ 0xa # ?wv) @ ?wt @ B) (int (length (A @ 0xa # ?wv)))
       (int (length (A @ 0xa # ?wv) + length ?wt)) = Inr ?wt"
    by (rule slice_middle) simp
  then have sl: "slice ?d (int (length A + 1 + length ?wv))
       (int (length A + 1 + length ?wv) + int (length ?wt)) = Inr ?wt"
    by (simp add: wire_token_field_def add.commute add.left_commute)
  have tok: "Token_Unmarshal Token_zero ?wt = Inr t"
    using small by (rule Token_Unmarshal_wire)
  show "readToken ?d (int (length A) + 1) = Inr (t, int (length A + length (wire_token_field t)))"
    unfolding readToken_def dec sum.case prod.case Let_def len
    using ok sl tok by (simp add: wire_token_field_def add.commute add.left_commute)
qed

lemma FungibleTokenPacketDataV2_step_Tokens:
  assumes "int (length (A @ wire_token_field t @ B)) \<le> maxInt"
  shows "FungibleTokenPacketDataV2_Unmarshal_step (A @ wire_token_field t @ B) (int (length A)) m
       = Inr (int (length A + length (wire_token_field t)), m\<lparr>Tokens := Tokens m @ [t]\<rparr>)"
  unfolding FungibleTokenPacketDataV2_Unmarshal_step_def Let_def
    readToken_wire [OF assms, simplified] sum.case prod.case
  by (simp add: tag_facts)

lemma before_wire_token_field:
  "int (length A) < int (length (A @ wire_token_field t @ B))"
  by (simp add: wire_token_field_def)

lemma FungibleTokenPacketDataV2_field_Tokens:
  assumes "int (length (A @ concat (map wire_token_field ts) @ B)) \<le> maxInt"
  shows "FungibleTokenPacketDataV2_Unmarshal_loop (A @ concat (map wire_token_field ts) @ B)
           (int (length A)) m
       = FungibleTokenPacketDataV2_Unmarshal_loop (A @ concat (map wire_token_field ts) @ B)
           (int (length A + length (concat (map wire_token_field ts))))
           (m\<lparr>Tokens := Tokens m @ ts\<rparr>)"
  using assms
proof (induction ts arbitrary: A m)
  case Nil
  have "m\<lparr>Tokens := Tokens m\<rparr> = m"
    by (cases m) simp
  then show ?case
    by simp
next
  case (Cons t ts)
  let ?rest = "concat (map wire_token_field ts)"
  let ?d = "A @ wire_token_field t @ ?rest @ B"
  let ?m1 = "m\<lparr>Tokens := Tokens m @ [t]\<rparr>"
  from Cons.prems have total: "int (length ?d) \<le> maxInt"
    by simp
  have "FungibleTokenPacketDataV2_Unmarshal_step ?d (int (length A)) m
      = Inr (int (length A + length (wire_token_field t)), ?m1)"
    using total by (rule FungibleTokenPacketDataV2_step_Tokens)
  with before_wire_token_field
  have "FungibleTokenPacketDataV2_Unmarshal_loop ?d (int (length A)) m
      = FungibleTokenPacketDataV2_Unmarshal_loop ?d
          (int (length A + length (wire_token_field t))) ?m1"
    by (rule FungibleTokenPacketDataV2_loop_step)
  also have "\<dots> = FungibleTokenPacketDataV2_Unmarshal_loop
      ((A @ wire_token_field t) @ ?rest @ B) (int (length (A @ wire_token_field t))) ?m1"
    by simp
  also have "\<dots> = FungibleTokenPacketDataV2_Unmarshal_loop
      ((A @ wire_token_field t) @ ?rest @ B)
      (int (length (A @ wire_token_field t) + length ?rest)) (?m1\<lparr>Tokens := Tokens ?m1 @ ts\<rparr>)"
    using total by (intro Cons.IH) simp
  finally show ?case
    by (simp add: add.assoc)
qed

lemma FungibleTokenPacketDataV2_Unmarshal_wire:
  assumes "int (length (wire_FungibleTokenPacketDataV2 m)) \<le> maxInt"
  shows "FungibleTokenPacketDataV2_Unmarshal FungibleTokenPacketDataV2_zero
           (wire_FungibleTokenPacketDataV2 m) = Inr m"
proof -
  let ?w1 = "concat (map wire_token_field (Tokens m))"
  let ?w2 = "wire_string_nonempty 0x12 (SenderV2 m)"
  let ?w3 = "wire_string_nonempty 0x1a (ReceiverV2 m)"
  let ?w4 = "wire_string_nonempty 0x22 (MemoV2 m)"
  let ?d = "?w1 @ ?w2 @ ?w3 @ ?w4"
  let ?m0 = "FungibleTokenPacketDataV2_zero"
  let ?m1 = "?m0\<lparr>Tokens := Tokens ?m0 @ Tokens m\<rparr>"
  let ?m2 = "?m1\<lparr>SenderV2 := SenderV2 m\<rparr>"
  let ?m3 = "?m2\<lparr>ReceiverV2 := ReceiverV2 m\<rparr>"
  let ?m4 = "?m3\<lparr>MemoV2 := MemoV2 m\<rparr>"
  have total: "int (length ?d) \<le> maxInt"
    using assms by (simp add: wire_FungibleTokenPacketDataV2_def)
  have "FungibleTokenPacketDataV2_Unmarshal_loop ?d 0 ?m0
      = FungibleTokenPacketDataV2_Unmarshal_loop ?d (int (length ?w1)) ?m1"
    using FungibleTokenPacketDataV2_field_Tokens [of "[]" "Tokens m" "?w2 @ ?w3 @ ?w4" ?m0] total
    by (simp add: FungibleTokenPacketDataV2_zero_def add.assoc)
  also have "\<dots> = FungibleTokenPacketDataV2_Unmarshal_loop ?d (int (length (?w1 @ ?w2))) ?m2"
    using FungibleTokenPacketDataV2_field_SenderV2 [of ?w1 "SenderV2 m" "?w3 @ ?w4" ?m1] total
    by (simp add: FungibleTokenPacketDataV2_zero_def add.assoc)
  also have "\<dots> = FungibleTokenPacketDataV2_Unmarshal_loop ?d
        (int (length (?w1 @ ?w2 @ ?w3))) ?m3"
    using FungibleTokenPacketDataV2_field_ReceiverV2 [of "?w1 @ ?w2" "ReceiverV2 m" ?w4 ?m2] total
    by (simp add: FungibleTokenPacketDataV2_zero_def add.assoc)
  also have "\<dots> = FungibleTokenPacketDataV2_Unmarshal_loop ?d (int (length ?d)) ?m4"
    using FungibleTokenPacketDataV2_field_MemoV2 [of "?w1 @ ?w2 @ ?w3" "MemoV2 m" "[]" ?m3] total
    by (simp add: FungibleTokenPacketDataV2_zero_def add.assoc)
  also have "\<dots> = Inr ?m4"
    by (rule FungibleTokenPacketDataV2_loop_end)
  also have "?m4 = m"
    by (cases m) (simp add: FungibleTokenPacketDataV2_zero_def)
  finally show ?thesis
    by (simp add: FungibleTokenPacketDataV2_Unmarshal_def wire_FungibleTokenPacketDataV2_def)
qed

lemma signed_take_bit_63_wrap:
  assumes "2 ^ 63 \<le> (x::int)" "x < 2 ^ 64"
  shows "signed_take_bit 63 x = x - 2 ^ 64"
proof -
  let ?y = "x + 2 ^ 63"
  have "(?y - 2 ^ 64) mod 2 ^ 64 = ?y - 2 ^ 64"
    using assms by (intro mod_pos_pos_trivial) simp_all
  then have "?y mod 2 ^ 64 = ?y - 2 ^ 64"
    by (simp only: minus_mod_self2)
  then have "take_bit 64 ?y = ?y - 2 ^ 64"
    by (simp only: take_bit_eq_mod)
  then show ?thesis
    by (simp add: signed_take_bit_eq_take_bit_shift)
qed

lemma negative_as_int_wraps:
  assumes "0 \<le> a" "a \<le> maxInt" "0 \<le> b" "b \<le> maxInt"
  shows "negative_as_int (a + b) \<longleftrightarrow> sint (word_of_int a + word_of_int b :: 64 word) < 0"
proof -
  have s: "sint (word_of_int a + word_of_int b :: 64 word) = signed_take_bit 63 (a + b)"
    by (simp flip: of_int_add add: signed_of_int)
  show ?thesis
  proof (cases "a + b \<le> maxInt")
    case True
    then have "signed_take_bit 63 (a + b) = a + b"
      using assms by (intro signed_take_bit_int_eq_self) (simp_all add: maxInt_def)
    with True assms show ?thesis
      by (simp add: s negative_as_int_def)
  next
    case False
    then have "2 ^ 63 \<le> a + b" "a + b < 2 ^ 64"
      using assms by (simp_all add: maxInt_def)
    then have "signed_take_bit 63 (a + b) = a + b - 2 ^ 64"
      by (rule signed_take_bit_63_wrap)
    with False assms show ?thesis
      by (simp add: s negative_as_int_def maxInt_def)
  qed
qed

lemma decodeVarint_no_panic:
  "0 \<le> iNdEx \<Longrightarrow> decodeVarint dAtA iNdEx shift acc \<noteq> Inl PanicOutOfRange"
proof (induction dAtA iNdEx shift acc rule: decodeVarint.induct)
  case (1 dAtA iNdEx shift acc)
  show ?case
  proof (cases "shift \<ge> 64 \<or> iNdEx \<ge> int (length dAtA)")
    case True
    then show ?thesis
      by (subst decodeVarint.simps) auto
  next
    case False
    with "1.prems" have b: "index dAtA iNdEx = Inr (dAtA ! nat iNdEx)"
      by (simp add: index_def)
    show ?thesis
    proof (cases "dAtA ! nat iNdEx < 0x80")
      case True
      with False b show ?thesis
        by (subst decodeVarint.simps) (simp add: Let_def)
    next
      case hi: False
      have "decodeVarint dAtA (iNdEx + 1) (shift + 7)
           (acc OR push_bit shift (ucast (dAtA ! nat iNdEx AND 0x7F))) \<noteq> Inl PanicOutOfRange"
        using False b hi "1.prems" by (intro "1.IH") auto
      with False b hi show ?thesis
        by (subst decodeVarint.simps) (simp add: Let_def)
    qed
  qed
qed

lemma readString_no_panic:
  "0 \<le> iNdEx \<Longrightarrow> readString dAtA iNdEx \<noteq> Inl PanicOutOfRange"
  using decodeVarint_no_panic [of iNdEx dAtA 0 0]
  by (auto simp: readString_def Let_def slice_def split: sum.splits prod.splits
      dest!: decodeVarint_progress)

lemma skipPacket_step_no_panic:
  "0 \<le> iNdEx \<Longrightarrow> skipPacket_step dAtA iNdEx depth \<noteq> Inl PanicOutOfRange"
proof -
  assume nonneg: "0 \<le> iNdEx"
  have later: "decodeVarint dAtA j 0 0 \<noteq> Inl PanicOutOfRange"
    if "decodeVarint dAtA iNdEx 0 0 = Inr (wire, j)" for wire j
    using decodeVarint_progress [OF that] by (intro decodeVarint_no_panic) simp
  show ?thesis
    using decodeVarint_no_panic [OF nonneg, of dAtA 0 0] later
    by (auto simp: skipPacket_step_def Let_def split: sum.splits prod.splits)
qed

lemma skipPacket_loop_no_panic:
  "0 \<le> iNdEx \<Longrightarrow> skipPacket_loop dAtA iNdEx depth \<noteq> Inl PanicOutOfRange"
proof (induction dAtA iNdEx depth rule: skipPacket_loop.induct)
  case (1 dAtA iNdEx depth)
  show ?case
  proof (cases "iNdEx < int (length dAtA)")
    case False
    then show ?thesis
      by (subst skipPacket_loop.simps) simp
  next
    case lt: True
    show ?thesis
    proof (cases "skipPacket_step dAtA iNdEx depth")
      case (Inl e)
      with lt skipPacket_step_no_panic [OF "1.prems", of dAtA depth] show ?thesis
        by (subst skipPacket_loop.simps) simp
    next
      case (Inr st)
      obtain i' d' where st: "st = (i', d')"
        by (cases st)
      with Inr have "0 \<le> i'"
        using skipPacket_step_progress [of dAtA iNdEx depth i' d'] by simp
      then have "skipPacket_loop dAtA i' d' \<noteq> Inl PanicOutOfRange"
        if "\<not> negative_as_int i'" "d' \<noteq> 0"
        using that lt Inr st by (intro "1.IH") auto
      with lt Inr st show ?thesis
        by (subst skipPacket_loop.simps) auto
    qed
  qed
qed

lemma skipUnknown_no_panic:
  "0 \<le> iNdEx \<Longrightarrow> iNdEx \<le> int (length dAtA) \<Longrightarrow>
     skipUnknown dAtA iNdEx \<noteq> Inl PanicOutOfRange"
  using skipPacket_loop_no_panic [of 0 "drop (nat iNdEx) dAtA" 0]
  by (auto simp: skipUnknown_def skipPacket_def slice_def Let_def split: sum.splits)

lemma FungibleTokenPacketData_Unmarshal_step_no_panic:
  assumes "0 \<le> iNdEx"
  shows "FungibleTokenPacketData_Unmarshal_step dAtA iNdEx m \<noteq> Inl PanicOutOfRange"
proof (cases "decodeVarint dAtA iNdEx 0 0")
  case (Inl e)
  with decodeVarint_no_panic [OF assms, of dAtA 0 0] show ?thesis
    by (simp add: FungibleTokenPacketData_Unmarshal_step_def)
next
  case (Inr r)
  obtain wire j where r: "r = (wire, j)"
    by (cases r)
  from Inr r have "iNdEx < j" "j \<le> int (length dAtA)"
    using decodeVarint_progress [of dAtA iNdEx 0 0 wire j] by simp_all
  with assms have "readString dAtA j \<noteq> Inl PanicOutOfRange"
    and "skipUnknown dAtA iNdEx \<noteq> Inl PanicOutOfRange"
    by (simp_all add: readString_no_panic skipUnknown_no_panic)
  then show ?thesis
    unfolding FungibleTokenPacketData_Unmarshal_step_def Inr r Let_def
    by (auto split: sum.splits prod.splits)
qed

lemma FungibleTokenPacketData_Unmarshal_loop_no_panic:
  "0 \<le> iNdEx \<Longrightarrow>
     FungibleTokenPacketData_Unmarshal_loop dAtA iNdEx m \<noteq> Inl PanicOutOfRange"
proof (induction dAtA iNdEx m rule: FungibleTokenPacketData_Unmarshal_loop.induct)
  case (1 dAtA iNdEx m)
  show ?case
  proof (cases "iNdEx < int (length dAtA)")
    case False
    then show ?thesis
      by (subst FungibleTokenPacketData_Unmarshal_loop.simps) simp
  next
    case lt: True
    show ?thesis
    proof (cases "FungibleTokenPacketData_Unmarshal_step dAtA iNdEx m")
      case (Inl e)
      with lt FungibleTokenPacketData_Unmarshal_step_no_panic [OF "1.prems", of dAtA m]
      show ?thesis
        by (subst FungibleTokenPacketData_Unmarshal_loop.simps) simp
    next
      case (Inr st)
      obtain i' m' where st: "st = (i', m')"
        by (cases st)
      with Inr have "0 \<le> i'"
        using FungibleTokenPacketData_Unmarshal_step_progress [of dAtA iNdEx m i' m'] by simp
      then have "FungibleTokenPacketData_Unmarshal_loop dAtA i' m' \<noteq> Inl PanicOutOfRange"
        using lt Inr st by (intro "1.IH") auto
      with lt Inr st show ?thesis
        by (subst FungibleTokenPacketData_Unmarshal_loop.simps) simp
    qed
  qed
qed

lemma Token_Unmarshal_step_no_panic:
  assumes "0 \<le> iNdEx"
  shows "Token_Unmarshal_step dAtA iNdEx m \<noteq> Inl PanicOutOfRange"
proof (cases "decodeVarint dAtA iNdEx 0 0")
  case (Inl e)
  with decodeVarint_no_panic [OF assms, of dAtA 0 0] show ?thesis
    by (simp add: Token_Unmarshal_step_def)
next
  case (Inr r)
  obtain wire j where r: "r = (wire, j)"
    by (cases r)
  from Inr r have "iNdEx < j" "j \<le> int (length dAtA)"
    using decodeVarint_progress [of dAtA iNdEx 0 0 wire j] by simp_all
  with assms have "readString dAtA j \<noteq> Inl PanicOutOfRange"
    and "skipUnknown dAtA iNdEx \<noteq> Inl PanicOutOfRange"
    and "decodeVarint dAtA j 0 0 \<noteq> Inl PanicOutOfRange"
    by (simp_all add: readString_no_panic skipUnknown_no_panic decodeVarint_no_panic)
  then show ?thesis
    unfolding Token_Unmarshal_step_def Inr r Let_def
    by (auto split: sum.splits prod.splits)
qed

lemma Token_Unmarshal_loop_no_panic:
  "0 \<le> iNdEx \<Longrightarrow> Token_Unmarshal_loop dAtA iNdEx m \<noteq> Inl PanicOutOfRange"
proof (induction dAtA iNdEx m rule: Token_Unmarshal_loop.induct)
  case (1 dAtA iNdEx m)
  show ?case
  proof (cases "iNdEx < int (length dAtA)")
    case False
    then show ?thesis
      by (subst Token_Unmarshal_loop.simps) simp
  next
    case lt: True
    show ?thesis
    proof (cases "Token_Unmarshal_step dAtA iNdEx m")
      case (Inl e)
      with lt Token_Unmarshal_step_no_panic [OF "1.prems", of dAtA m]
      show ?thesis
        by (subst Token_Unmarshal_loop.simps) simp
    next
      case (Inr st)
      obtain i' m' where st: "st = (i', m')"
        by (cases st)
      with Inr have "0 \<le> i'"
        using Token_Unmarshal_step_progress [of dAtA iNdEx m i' m'] by simp
      then have "Token_Unmarshal_loop dAtA i' m' \<noteq> Inl PanicOutOfRange"
        using lt Inr st by (intro "1.IH") auto
      with lt Inr st show ?thesis
        by (subst Token_Unmarshal_loop.simps) simp
    qed
  qed
qed

lemma readToken_no_panic:
  "0 \<le> iNdEx \<Longrightarrow> readToken dAtA iNdEx \<noteq> Inl PanicOutOfRange"
  using decodeVarint_no_panic [of iNdEx dAtA 0 0] Token_Unmarshal_loop_no_panic [of 0]
  by (auto simp: readToken_def Token_Unmarshal_def Let_def slice_def
      split: sum.splits prod.splits dest!: decodeVarint_progress)

lemma FungibleTokenPacketDataV2_Unmarshal_step_no_panic:
  assumes "0 \<le> iNdEx"
  shows "FungibleTokenPacketDataV2_Unmarshal_step dAtA iNdEx m \<noteq> Inl PanicOutOfRange"
proof (cases "decodeVarint dAtA iNdEx 0 0")
  case (Inl e)
  with decodeVarint_no_panic [OF assms, of dAtA 0 0] show ?thesis
    by (simp add: FungibleTokenPacketDataV2_Unmarshal_step_def)
next
  case (Inr r)
  obtain wire j where r: "r = (wire, j)"
    by (cases r)
  from Inr r have "iNdEx < j" "j \<le> int (length dAtA)"
    using decodeVarint_progress [of dAtA iNdEx 0 0 wire j] by simp_all
  with assms have "readString dAtA j \<noteq> Inl PanicOutOfRange"
    and "skipUnknown dAtA iNdEx \<noteq> Inl PanicOutOfRange"
    and "readToken dAtA j \<noteq> Inl PanicOutOfRange"
    by (simp_all add: readString_no_panic skipUnknown_no_panic readToken_no_panic)
  then show ?thesis
    unfolding FungibleTokenPacketDataV2_Unmarshal_step_def Inr r Let_def
    by (auto split: sum.splits prod.splits)
qed

lemma FungibleTokenPacketDataV2_Unmarshal_loop_no_panic:
  "0 \<le> iNdEx \<Longrightarrow> FungibleTokenPacketDataV2_Unmarshal_loop dAtA iNdEx m \<noteq> Inl PanicOutOfRange"
proof (induction dAtA iNdEx m rule: FungibleTokenPacketDataV2_Unmarshal_loop.induct)
  case (1 dAtA iNdEx m)
  show ?case
  proof (cases "iNdEx < int (length dAtA)")
    case False
    then show ?thesis
      by (subst FungibleTokenPacketDataV2_Unmarshal_loop.simps) simp
  next
    case lt: True
    show ?thesis
    proof (cases "FungibleTokenPacketDataV2_Unmarshal_step dAtA iNdEx m")
      case (Inl e)
      with lt FungibleTokenPacketDataV2_Unmarshal_step_no_panic [OF "1.prems", of dAtA m]
      show ?thesis
        by (subst FungibleTokenPacketDataV2_Unmarshal_loop.simps) simp
    next
      case (Inr st)
      obtain i' m' where st: "st = (i', m')"
        by (cases st)
      with Inr have "0 \<le> i'"
        using FungibleTokenPacketDataV2_Unmarshal_step_progress [of dAtA iNdEx m i' m'] by simp
      then have "FungibleTokenPacketDataV2_Unmarshal_loop dAtA i' m' \<noteq> Inl PanicOutOfRange"
        using lt Inr st by (intro "1.IH") auto
      with lt Inr st show ?thesis
        by (subst FungibleTokenPacketDataV2_Unmarshal_loop.simps) simp
    qed
  qed
qed































section \<open>Encoding and decoding are inverse\<close>

lemma Marshal_Unmarshal_legacy:
  assumes "FungibleTokenPacketData_Size p \<le> maxInt"
  shows "FungibleTokenPacketData_Marshal p = Inr (wire_FungibleTokenPacketData p)"
    and "FungibleTokenPacketData_Unmarshal FungibleTokenPacketData_zero
           (wire_FungibleTokenPacketData p) = Inr p"
  using assms
  by (simp_all add: FungibleTokenPacketData_Marshal_wire FungibleTokenPacketData_Size_wire
      FungibleTokenPacketData_Unmarshal_wire)

lemma Marshal_Unmarshal_V2:
  assumes "FungibleTokenPacketDataV2_Size p \<le> maxInt"
  shows "FungibleTokenPacketDataV2_Marshal p = Inr (wire_FungibleTokenPacketDataV2 p)"
    and "FungibleTokenPacketDataV2_Unmarshal FungibleTokenPacketDataV2_zero
           (wire_FungibleTokenPacketDataV2 p) = Inr p"
  using assms
  by (simp_all add: FungibleTokenPacketDataV2_Marshal_wire FungibleTokenPacketDataV2_Size_wire
      FungibleTokenPacketDataV2_Unmarshal_wire)

lemma sample_sizes:
  "FungibleTokenPacketData_Size sample_packet \<le> maxInt"
  "FungibleTokenPacketDataV2_Size sample_packet_v2 \<le> maxInt"
  "Token_Size sample_token \<le> maxInt"
  by code_simp+

text \<open>
  Claim C1. For every payload of either wire form whose encoded size fits a Go \<open>int\<close>,
  \<open>Marshal\<close> succeeds and \<open>Unmarshal\<close> of the bytes it returns, into the zero value, succeeds
  and returns the payload: every field, the order of \<open>Tokens\<close> and the order of each
  token's \<open>Trace\<close> included (the payloads are compared as records of strings and lists).
\<close>

theorem Unmarshal_Marshal_roundtrip:
  "(FungibleTokenPacketData_Size p \<le> maxInt \<longrightarrow>
      (case FungibleTokenPacketData_Marshal p of
         Inl e \<Rightarrow> False
       | Inr bs \<Rightarrow> FungibleTokenPacketData_Unmarshal FungibleTokenPacketData_zero bs = Inr p))
   \<and> (FungibleTokenPacketDataV2_Size q \<le> maxInt \<longrightarrow>
      (case FungibleTokenPacketDataV2_Marshal q of
         Inl e \<Rightarrow> False
       | Inr bs \<Rightarrow> FungibleTokenPacketDataV2_Unmarshal FungibleTokenPacketDataV2_zero bs = Inr q))"
  by (simp add: Marshal_Unmarshal_legacy Marshal_Unmarshal_V2)

theorem Unmarshal_Marshal_roundtrip_witness:
  "FungibleTokenPacketData_Size sample_packet \<le> maxInt
   \<and> (case FungibleTokenPacketData_Marshal sample_packet of
         Inl e \<Rightarrow> False
       | Inr bs \<Rightarrow>
           FungibleTokenPacketData_Unmarshal FungibleTokenPacketData_zero bs = Inr sample_packet)
   \<and> FungibleTokenPacketDataV2_Size sample_packet_v2 \<le> maxInt
   \<and> (case FungibleTokenPacketDataV2_Marshal sample_packet_v2 of
         Inl e \<Rightarrow> False
       | Inr bs \<Rightarrow>
           FungibleTokenPacketDataV2_Unmarshal FungibleTokenPacketDataV2_zero bs
             = Inr sample_packet_v2)"
  using Unmarshal_Marshal_roundtrip [of sample_packet sample_packet_v2] sample_sizes
  by simp

section \<open>Re-encoding a decoded byte string\<close>

text \<open>
  Claim C3, counterexample. The decoder accepts the fields of a message in any order; the
  encoder writes them in schema order. The byte string \<open>swapped_fields\<close> decodes, and the
  decoded payload encodes to another byte string.
\<close>

theorem remarshal_counterexample:
  "FungibleTokenPacketData_Unmarshal FungibleTokenPacketData_zero swapped_fields
     = Inr \<lparr>Denom = ''a'', Amount = ''1'', Sender = [], Receiver = [], Memo = []\<rparr>
   \<and> FungibleTokenPacketData_Marshal
         \<lparr>Denom = ''a'', Amount = ''1'', Sender = [], Receiver = [], Memo = []\<rparr>
     = Inr [0x0a, 0x01, 0x61, 0x12, 0x01, 0x31]
   \<and> swapped_fields \<noteq> [0x0a, 0x01, 0x61, 0x12, 0x01, 0x31]"
  by code_simp

text \<open>
  Claim C3, as amended. Re-encoding reproduces the byte strings that the encoder itself
  produces: for a payload \<open>p\<close> of either wire form whose size fits a Go \<open>int\<close>, the bytes
  \<open>b\<close> of \<open>Marshal p\<close> decode, and the decoded payload encodes to \<open>b\<close> again.
\<close>

theorem remarshal_of_marshalled:
  "(FungibleTokenPacketData_Size p \<le> maxInt \<longrightarrow>
      (case FungibleTokenPacketData_Marshal p of
         Inl e \<Rightarrow> False
       | Inr b \<Rightarrow>
           (case FungibleTokenPacketData_Unmarshal FungibleTokenPacketData_zero b of
              Inl e \<Rightarrow> False
            | Inr p' \<Rightarrow> FungibleTokenPacketData_Marshal p' = Inr b)))
   \<and> (FungibleTokenPacketDataV2_Size q \<le> maxInt \<longrightarrow>
      (case FungibleTokenPacketDataV2_Marshal q of
         Inl e \<Rightarrow> False
       | Inr b \<Rightarrow>
           (case FungibleTokenPacketDataV2_Unmarshal FungibleTokenPacketDataV2_zero b of
              Inl e \<Rightarrow> False
            | Inr q' \<Rightarrow> FungibleTokenPacketDataV2_Marshal q' = Inr b)))"
  by (simp add: Marshal_Unmarshal_legacy Marshal_Unmarshal_V2)

theorem remarshal_of_marshalled_witness:
  "FungibleTokenPacketData_Size sample_packet \<le> maxInt
   \<and> (case FungibleTokenPacketData_Marshal sample_packet of
         Inl e \<Rightarrow> False
       | Inr b \<Rightarrow>
           (case FungibleTokenPacketData_Unmarshal FungibleTokenPacketData_zero b of
              Inl e \<Rightarrow> False
            | Inr p' \<Rightarrow> FungibleTokenPacketData_Marshal p' = Inr b))
   \<and> FungibleTokenPacketDataV2_Size sample_packet_v2 \<le> maxInt
   \<and> (case FungibleTokenPacketDataV2_Marshal sample_packet_v2 of
         Inl e \<Rightarrow> False
       | Inr b \<Rightarrow>
           (case FungibleTokenPacketDataV2_Unmarshal FungibleTokenPacketDataV2_zero b of
              Inl e \<Rightarrow> False
            | Inr q' \<Rightarrow> FungibleTokenPacketDataV2_Marshal q' = Inr b))"
  using remarshal_of_marshalled [of sample_packet sample_packet_v2] sample_sizes
  by simp

section \<open>Unknown fields\<close>




section \<open>Truncated and malformed input\<close>



section \<open>The decoders are total and read in bounds\<close>

text \<open>
  Claim C9. The three decoders and \<open>skipPacket\<close> are total functions: their loops are
  defined by recursion on the index with a termination proof (the distance from the index
  to the end of the input shrinks in every iteration). Every index and slice expression of
  the code is modelled with its bounds check, which returns \<open>PanicOutOfRange\<close> out of
  range; no input and no receiver makes a decoder return it, so each returns a value or one
  of the decoding errors.
\<close>

theorem decoders_total_in_bounds:
  "FungibleTokenPacketData_Unmarshal m dAtA \<noteq> Inl PanicOutOfRange
   \<and> FungibleTokenPacketDataV2_Unmarshal q dAtA \<noteq> Inl PanicOutOfRange
   \<and> Token_Unmarshal t dAtA \<noteq> Inl PanicOutOfRange
   \<and> skipPacket dAtA \<noteq> Inl PanicOutOfRange"
  using FungibleTokenPacketData_Unmarshal_loop_no_panic [of 0 dAtA m]
    FungibleTokenPacketDataV2_Unmarshal_loop_no_panic [of 0 dAtA q]
    Token_Unmarshal_loop_no_panic [of 0 dAtA t]
    skipPacket_loop_no_panic [of 0 dAtA 0]
  by (simp add: FungibleTokenPacketData_Unmarshal_def FungibleTokenPacketDataV2_Unmarshal_def
      Token_Unmarshal_def skipPacket_def)

section \<open>The size computed is the size encoded\<close>



section \<open>Validation of the legacy payload\<close>

text \<open>
  Claim C2, counterexample. A sender that consists of one space is a non-empty string, the
  amount \<open>1\<close> is strictly positive and \<^verbatim>\<open>uatom\<close> is a valid denomination, so the payload
  meets the condition as the specification words it; \<open>ValidateBasic\<close> rejects it, because
  it trims white space before it tests for the empty string.
\<close>

theorem ValidateBasic_blank_counterexample:
  "valid_as_specified sample_externals blank_sender_packet
   \<and> ValidateBasic sample_externals blank_sender_packet = Some ErrInvalidAddress"
  by (simp add: valid_as_specified_def ValidateBasic_def sample_externals_def
      blank_sender_packet_def ascii_space_def)

text \<open>
  Claim C2, as amended. \<open>ValidateBasic\<close> returns \<^verbatim>\<open>nil\<close> if and only if the amount parses
  to a strictly positive integer, sender and receiver are not blank (not empty once
  \<^verbatim>\<open>strings.TrimSpace\<close> has removed leading and trailing white space), and the
  denomination passes \<^verbatim>\<open>ValidatePrefixedDenom\<close>; otherwise it returns an error. This holds
  whatever the library functions compute.
\<close>

theorem ValidateBasic_nil_iff:
  "ValidateBasic ext ftpd = None \<longleftrightarrow>
     (case NewIntFromString ext (Amount ftpd) of None \<Rightarrow> False | Some amount \<Rightarrow> 0 < amount)
     \<and> TrimSpace ext (Sender ftpd) \<noteq> []
     \<and> TrimSpace ext (Receiver ftpd) \<noteq> []
     \<and> ValidatePrefixedDenom ext (Denom ftpd) = None"
  by (simp add: ValidateBasic_def split: option.splits)

theorem ValidateBasic_nil_iff_witness:
  "ValidateBasic sample_externals sample_packet = None
   \<and> TrimSpace sample_externals (Sender sample_packet) \<noteq> []
   \<and> ValidateBasic sample_externals blank_sender_packet \<noteq> None
   \<and> TrimSpace sample_externals (Sender blank_sender_packet) = []"
  using ValidateBasic_nil_iff [of sample_externals sample_packet]
    ValidateBasic_nil_iff [of sample_externals blank_sender_packet]
  by (simp add: sample_externals_def sample_packet_def blank_sender_packet_def ascii_space_def)

section \<open>Memo probes\<close>

lemma getCallbackData_absent:
  "no_callback_object ext ftpd \<Longrightarrow> getCallbackData ext ftpd = None"
  by (auto simp: no_callback_object_def getCallbackData_def
      split: option.splits json.splits)

lemma getCallbackData_present:
  "Memo ftpd \<noteq> [] \<Longrightarrow> json_Unmarshal ext (Memo ftpd) = Some jsonObject \<Longrightarrow>
   map_of jsonObject ''callback'' = Some (JObject callbackData) \<Longrightarrow>
   getCallbackData ext ftpd = Some callbackData"
  by (simp add: getCallbackData_def)

text \<open>
  Claim C8. When the memo is empty, is rejected by \<^verbatim>\<open>json.Unmarshal\<close> (not valid JSON), or
  is an object without a key \<^verbatim>\<open>"callback"\<close> that maps to an object, the two address
  getters return the empty string and \<open>GetUserDefinedCustomMessage\<close> returns \<^verbatim>\<open>nil\<close>. When
  the callback object is there with a string under \<^verbatim>\<open>"src_callback_address"\<close> (or
  \<^verbatim>\<open>"dest_callback_address"\<close>), the getter returns exactly that string.
\<close>

theorem memo_probes:
  "(no_callback_object ext ftpd \<longrightarrow>
      GetSourceCallbackAddress ext ftpd = []
      \<and> GetDestCallbackAddress ext ftpd = []
      \<and> GetUserDefinedCustomMessage ext ftpd = None)
   \<and> (Memo ftpd \<noteq> [] \<and> json_Unmarshal ext (Memo ftpd) = Some jsonObject
       \<and> map_of jsonObject ''callback'' = Some (JObject callbackData)
       \<and> map_of callbackData ''src_callback_address'' = Some (JString src) \<longrightarrow>
      GetSourceCallbackAddress ext ftpd = src)
   \<and> (Memo ftpd \<noteq> [] \<and> json_Unmarshal ext (Memo ftpd) = Some jsonObject
       \<and> map_of jsonObject ''callback'' = Some (JObject callbackData)
       \<and> map_of callbackData ''dest_callback_address'' = Some (JString dst) \<longrightarrow>
      GetDestCallbackAddress ext ftpd = dst)"
  by (auto simp: GetSourceCallbackAddress_def GetDestCallbackAddress_def
      GetUserDefinedCustomMessage_def getCallbackData_absent getCallbackData_present)

theorem memo_probes_witness:
  "no_callback_object sample_externals blank_sender_packet
   \<and> GetSourceCallbackAddress sample_externals blank_sender_packet = []
   \<and> GetDestCallbackAddress sample_externals blank_sender_packet = []
   \<and> GetUserDefinedCustomMessage sample_externals blank_sender_packet = None
   \<and> Memo sample_packet \<noteq> []
   \<and> json_Unmarshal sample_externals (Memo sample_packet) = Some sample_memo_object
   \<and> GetSourceCallbackAddress sample_externals sample_packet = ''cosmos1src''
   \<and> GetDestCallbackAddress sample_externals sample_packet = ''cosmos1dst''"
proof -
  have absent: "no_callback_object sample_externals blank_sender_packet"
    by (simp add: no_callback_object_def blank_sender_packet_def)
  have memo: "Memo sample_packet \<noteq> []"
    by (simp add: sample_packet_def sample_memo_def)
  have parsed: "json_Unmarshal sample_externals (Memo sample_packet) = Some sample_memo_object"
    by (simp add: sample_externals_def sample_packet_def)
  have cb: "map_of sample_memo_object ''callback''
      = Some (JObject [(''src_callback_address'', JString ''cosmos1src''),
                       (''dest_callback_address'', JString ''cosmos1dst'')])"
    by (simp add: sample_memo_object_def)
  show ?thesis
    using absent memo parsed cb
      memo_probes [of sample_externals blank_sender_packet]
      memo_probes [of sample_externals sample_packet sample_memo_object
        "[(''src_callback_address'', JString ''cosmos1src''),
          (''dest_callback_address'', JString ''cosmos1dst'')]" "''cosmos1src''" "''cosmos1dst''"]
    by simp
qed

section \<open>The forwarding state tracker resolves at most once\<close>

lemma resolve_absent: "tracker s k = None \<Longrightarrow> resolve k s = (NotFound, s)"
  by (simp add: resolve_def)

lemma resolve_present:
  "tracker s k = Some e \<Longrightarrow> resolve k s = (Found e, s\<lparr>tracker := (tracker s)(k := None)\<rparr>)"
  by (simp add: resolve_def)

lemma resolve_again_absent: "tracker s k = None \<Longrightarrow> resolve_again n k s = s"
  by (induction n) (simp_all add: resolve_absent)

text \<open>
  Claim C7. After \<open>begin\<close> has recorded an entry for a key, the first \<open>resolve\<close> on
  that key returns the entry and removes it; every later \<open>resolve\<close> on the key returns
  \<open>NotFound\<close> and leaves tracker and ledger as they are, so resolving twice (or any
  number of times more) ends in the state that resolving once ends in. The first
  resolution does not touch the ledger either.
\<close>

theorem resolve_at_most_once:
  assumes "begin_forward k e s = Inr s1"
  shows "fst (resolve k s1) = Found e
       \<and> tracker (snd (resolve k s1)) k = None
       \<and> ledger (snd (resolve k s1)) = ledger s1
       \<and> resolve k (resolve_again n k (snd (resolve k s1))) = (NotFound, snd (resolve k s1))
       \<and> snd (resolve k (snd (resolve k s1))) = snd (resolve k s1)"
proof -
  from assms have s1: "s1 = s\<lparr>tracker := (tracker s)(k \<mapsto> e)\<rparr>"
    by (simp add: begin_forward_def split: option.splits)
  then have present: "tracker s1 k = Some e"
    by simp
  let ?s2 = "s1\<lparr>tracker := (tracker s1)(k := None)\<rparr>"
  have first: "resolve k s1 = (Found e, ?s2)"
    using present by (rule resolve_present)
  have gone: "tracker ?s2 k = None" and led: "ledger ?s2 = ledger s1"
    by simp_all
  have again: "resolve_again n k ?s2 = ?s2"
    using gone by (rule resolve_again_absent)
  have second: "resolve k ?s2 = (NotFound, ?s2)"
    using gone by (rule resolve_absent)
  show ?thesis
    unfolding first fst_conv snd_conv again second using gone led by simp
qed

theorem resolve_at_most_once_witness:
  "begin_forward sample_key sample_entry sample_state
     = Inr (sample_state\<lparr>tracker := (tracker sample_state)(sample_key \<mapsto> sample_entry)\<rparr>)
   \<and> fst (resolve sample_key
        (sample_state\<lparr>tracker := (tracker sample_state)(sample_key \<mapsto> sample_entry)\<rparr>))
       = Found sample_entry
   \<and> resolve sample_key (resolve_again 3 sample_key (snd (resolve sample_key
        (sample_state\<lparr>tracker := (tracker sample_state)(sample_key \<mapsto> sample_entry)\<rparr>))))
       = (NotFound, snd (resolve sample_key
        (sample_state\<lparr>tracker := (tracker sample_state)(sample_key \<mapsto> sample_entry)\<rparr>)))"
proof -
  have h: "begin_forward sample_key sample_entry sample_state
     = Inr (sample_state\<lparr>tracker := (tracker sample_state)(sample_key \<mapsto> sample_entry)\<rparr>)"
    by (simp add: begin_forward_def sample_state_def)
  show ?thesis
    using h resolve_at_most_once [OF h, of 3] by simp
qed

end
